theory Spec2Isabelle
  imports Main "HOL-Library.Word" "HOL-Library.Signed_Division"
begin

unbundle bit_operations_syntax

section \<open>Data model\<close>

text \<open>
  The program is a Go command (package \<open>main\<close>) in two revisions: \<open>main.go\<close>, the first
  one, and the later revision with \<open>detectRomFormat\<close>, \<open>convertHeaderEndianness\<close>,
  \<open>extractCleanTitle\<close>, \<open>computeSHA256\<close> and the size-normalising \<open>copyFile\<close>.
  Functions of the later revision keep their names; functions of \<open>main.go\<close> carry the
  prefix \<open>main_\<close>.

  A Go \<open>[]byte\<close> is a list of 8-bit words, a \<open>rune\<close> is a 32-bit word read as signed
  (\<open>int32\<close>), \<open>int64\<close> sizes are integers (every size the program handles is below
  \<open>2 ^ 29\<close>, so no operation wraps), and a Go \<open>string\<close> is an Isabelle \<open>string\<close>
  (both are sequences of 8-bit characters).
\<close>

type_synonym byte = "8 word"
type_synonym rune = "32 word"

definition go_string :: "byte list \<Rightarrow> string" where
  \<comment> \<open>the conversion \<open>string(b)\<close>\<close>
  "go_string bs = map (\<lambda>b. char_of (unat b)) bs"

definition go_bytes :: "string \<Rightarrow> byte list" where
  \<comment> \<open>the conversion \<open>[]byte(s)\<close>\<close>
  "go_bytes s = map (\<lambda>c. word_of_nat (of_char c)) s"

text \<open>
  The files the program touches are a store from paths to contents. \<open>os.Open\<close> fails on
  a path the store does not hold; \<open>os.Create\<close> creates or truncates; reads deliver the
  bytes of a regular file in order. Failures of the device itself (a full disk, a revoked
  permission) are outside the store: \<open>Create\<close>, \<open>Write\<close> and \<open>Sync\<close> succeed.
\<close>

type_synonym filesystem = "string \<rightharpoonup> byte list"

datatype io_error = EOF | ErrUnexpectedEOF | ErrNotExist

datatype error =
    ErrOpeningROM io_error
  | ErrReadingROMHeader io_error
  | ErrROMHeaderIncomplete
  | ErrUnsupportedROMFormat "byte list"
  | Main_ErrUnsupportedROMFormat
  | ErrOpeningROMForHashing io_error
  | ErrOpeningSaveFile io_error
  | ErrReadingSaveFile io_error
  | ErrUnexpectedReadSize nat
  | Main_ErrNotMultipleOf4
  | ErrOpeningSourceFile io_error
  | ErrSourceFileEmpty
  | RuntimePanic

section \<open>Library functions the program calls\<close>

subsection \<open>\<open>encoding/binary\<close>\<close>

definition LittleEndian_Uint16 :: "byte list \<Rightarrow> 16 word" where
  "LittleEndian_Uint16 b = ucast (b ! 0) OR push_bit 8 (ucast (b ! 1))"

definition BigEndian_PutUint16 :: "16 word \<Rightarrow> byte list" where
  "BigEndian_PutUint16 v = [ucast (drop_bit 8 v), ucast v]"

definition LittleEndian_Uint32 :: "byte list \<Rightarrow> 32 word" where
  "LittleEndian_Uint32 b =
     ucast (b ! 0) OR push_bit 8 (ucast (b ! 1)) OR push_bit 16 (ucast (b ! 2))
       OR push_bit 24 (ucast (b ! 3))"

definition BigEndian_Uint32 :: "byte list \<Rightarrow> 32 word" where
  "BigEndian_Uint32 b =
     ucast (b ! 3) OR push_bit 8 (ucast (b ! 2)) OR push_bit 16 (ucast (b ! 1))
       OR push_bit 24 (ucast (b ! 0))"

definition BigEndian_PutUint32 :: "32 word \<Rightarrow> byte list" where
  "BigEndian_PutUint32 v =
     [ucast (drop_bit 24 v), ucast (drop_bit 16 v), ucast (drop_bit 8 v), ucast v]"

definition LittleEndian_PutUint32 :: "32 word \<Rightarrow> byte list" where
  "LittleEndian_PutUint32 v =
     [ucast v, ucast (drop_bit 8 v), ucast (drop_bit 16 v), ucast (drop_bit 24 v)]"

definition copy_into :: "byte list \<Rightarrow> byte list \<Rightarrow> byte list" where
  \<comment> \<open>the builtin \<open>copy(dst, src)\<close>: the shorter length decides\<close>
  "copy_into dst src = take (length dst) src @ drop (length src) dst"

definition put_slice :: "byte list \<Rightarrow> nat \<Rightarrow> byte list \<Rightarrow> byte list" where
  \<comment> \<open>storing \<open>v\<close> through the slice \<open>b[i : i + len v]\<close>, which is in range\<close>
  "put_slice b i v = take i b @ v @ drop (i + length v) b"

subsection \<open>\<open>io\<close> and \<open>os\<close>: reading a regular file\<close>

text \<open>
  A reader is the list of bytes not yet read. Each function returns the bytes it read
  (their number is Go's \<open>n\<close>) and the error, \<open>None\<close> for \<open>nil\<close>; the reader then
  continues at \<open>drop n\<close>.
\<close>

definition File_Read :: "byte list \<Rightarrow> nat \<Rightarrow> byte list \<times> io_error option" where
  \<comment> \<open>\<open>(*os.File).Read\<close> into a buffer of \<open>k > 0\<close> bytes\<close>
  "File_Read rest k = (if rest = [] then ([], Some EOF) else (take k rest, None))"

definition io_ReadFull :: "byte list \<Rightarrow> nat \<Rightarrow> byte list \<times> io_error option" where
  "io_ReadFull rest k =
     (if k \<le> length rest then (take k rest, None)
      else if rest = [] then ([], Some EOF)
      else (rest, Some ErrUnexpectedEOF))"

subsection \<open>\<open>bytes.TrimRight\<close> with the cutset \<open>" "\<close>\<close>

definition TrimRight_space :: "byte list \<Rightarrow> byte list" where
  "TrimRight_space s = rev (dropWhile (\<lambda>b. b = 0x20) (rev s))"

subsection \<open>\<open>unicode/utf8\<close>: what \<open>range\<close> over a string and \<open>WriteRune\<close> do\<close>

definition RuneError :: rune where
  "RuneError = 0xFFFD"

definition utf8_first :: "byte \<Rightarrow> byte" where
  \<comment> \<open>the table \<open>first\<close>: \<open>0xF0\<close> ASCII, \<open>0xF1\<close> invalid, else accept-range and size\<close>
  "utf8_first b =
     (if b < 0x80 then 0xF0 else if b < 0xC2 then 0xF1 else if b < 0xE0 then 0x02
      else if b = 0xE0 then 0x13 else if b < 0xED then 0x03 else if b = 0xED then 0x23
      else if b < 0xF0 then 0x03 else if b = 0xF0 then 0x34 else if b < 0xF4 then 0x04
      else if b = 0xF4 then 0x44 else 0xF1)"

definition acceptRanges :: "nat \<Rightarrow> byte \<times> byte" where
  "acceptRanges i =
     (if i = 0 then (0x80, 0xBF) else if i = 1 then (0xA0, 0xBF)
      else if i = 2 then (0x80, 0x9F) else if i = 3 then (0x90, 0xBF)
      else if i = 4 then (0x80, 0x8F) else (0, 0))"

definition DecodeRune :: "byte list \<Rightarrow> rune \<times> nat" where
  "DecodeRune s =
     (if length s < 1 then (RuneError, 0)
      else let s0 = s ! 0; x = utf8_first s0 in
        if 0xF0 \<le> x then ((if x = 0xF0 then ucast s0 else RuneError), 1)
        else let sz = unat (x AND 7); acc = acceptRanges (unat (drop_bit 4 x)) in
          if length s < sz then (RuneError, 1)
          else let s1 = s ! 1 in
            if s1 < fst acc \<or> snd acc < s1 then (RuneError, 1)
            else if sz \<le> 2
              then (push_bit 6 (ucast (s0 AND 0x1F)) OR ucast (s1 AND 0x3F), 2)
            else let s2 = s ! 2 in
              if s2 < 0x80 \<or> 0xBF < s2 then (RuneError, 1)
              else if sz \<le> 3
                then (push_bit 12 (ucast (s0 AND 0x0F)) OR push_bit 6 (ucast (s1 AND 0x3F))
                        OR ucast (s2 AND 0x3F), 3)
              else let s3 = s ! 3 in
                if s3 < 0x80 \<or> 0xBF < s3 then (RuneError, 1)
                else (push_bit 18 (ucast (s0 AND 0x07)) OR push_bit 12 (ucast (s1 AND 0x3F))
                        OR push_bit 6 (ucast (s2 AND 0x3F)) OR ucast (s3 AND 0x3F), 4))"

lemma DecodeRune_width: "s \<noteq> [] \<Longrightarrow> 1 \<le> snd (DecodeRune s)"
  by (cases s) (simp_all add: DecodeRune_def Let_def)

function range_runes :: "byte list \<Rightarrow> rune list" where
  \<comment> \<open>the runes that \<open>for _, r := range s\<close> yields, in order\<close>
  "range_runes s =
     (if s = [] then []
      else fst (DecodeRune s) # range_runes (drop (snd (DecodeRune s)) s))"
  by pat_completeness auto
termination
proof (relation "measure length")
  show "wf (measure length)" by simp
next
  fix s :: "byte list"
  assume "s \<noteq> []"
  then show "(drop (snd (DecodeRune s)) s, s) \<in> measure length"
    using DecodeRune_width [of s] by (cases s) auto
qed

declare range_runes.simps [simp del]

definition AppendRune :: "byte list \<Rightarrow> rune \<Rightarrow> byte list" where
  \<comment> \<open>\<open>utf8.AppendRune\<close>, which \<open>WriteRune\<close> and \<open>string([]rune)\<close> encode with\<close>
  "AppendRune p r =
     (if r \<le> 0x7F then p @ [ucast r]
      else if r \<le> 0x7FF
        then p @ [0xC0 OR ucast (drop_bit 6 r), 0x80 OR (ucast r AND 0x3F)]
      else let r' = (if 0x10FFFF < r \<or> (0xD800 \<le> r \<and> r \<le> 0xDFFF) then RuneError else r) in
        if r' \<le> 0xFFFF
        then p @ [0xE0 OR ucast (drop_bit 12 r'), 0x80 OR (ucast (drop_bit 6 r') AND 0x3F),
                  0x80 OR (ucast r' AND 0x3F)]
        else p @ [0xF0 OR ucast (drop_bit 18 r'), 0x80 OR (ucast (drop_bit 12 r') AND 0x3F),
                  0x80 OR (ucast (drop_bit 6 r') AND 0x3F), 0x80 OR (ucast r' AND 0x3F)])"

section \<open>Cartridge identification\<close>

subsection \<open>Byte-order detection\<close>

definition romFormats :: "(string \<times> byte list) list" where
  "romFormats =
     [(''z64'', [0x80, 0x37, 0x12, 0x40]),
      (''n64'', [0x40, 0x12, 0x37, 0x80]),
      (''v64'', [0x37, 0x80, 0x40, 0x12])]"

text \<open>
  \<open>detectRomFormat\<close> ranges over the map \<open>romFormats\<close>, and Go leaves the order of a
  map's iteration open. \<open>detectRomFormat_in\<close> runs the loop over the entries in a given
  order; \<open>detectRomFormat\<close> is the loop in the order of the source text.
\<close>

fun detectRomFormat_in :: "(string \<times> byte list) list \<Rightarrow> byte list \<Rightarrow> error + string" where
  "detectRomFormat_in [] magicBytes = Inl (ErrUnsupportedROMFormat magicBytes)"
| "detectRomFormat_in ((mode, magic) # rest) magicBytes =
     (if magicBytes = magic then Inr mode else detectRomFormat_in rest magicBytes)"

definition detectRomFormat :: "byte list \<Rightarrow> error + string" where
  "detectRomFormat magicBytes = detectRomFormat_in romFormats magicBytes"

definition main_detect :: "byte list \<Rightarrow> error + string" where
  \<comment> \<open>the \<open>switch\<close> on \<open>magic := rawHeader[0:4]\<close> in \<open>processRom\<close> of \<open>main.go\<close>\<close>
  "main_detect rawHeader =
     (if length rawHeader < 4 then Inl RuntimePanic
      else let magic = take 4 rawHeader in
        if magic ! 0 = 0x80 \<and> magic ! 1 = 0x37 \<and> magic ! 2 = 0x12 \<and> magic ! 3 = 0x40
          then Inr ''z64''
        else if magic ! 0 = 0x40 \<and> magic ! 1 = 0x12 \<and> magic ! 2 = 0x37 \<and> magic ! 3 = 0x80
          then Inr ''n64''
        else if magic ! 0 = 0x37 \<and> magic ! 1 = 0x80 \<and> magic ! 2 = 0x40 \<and> magic ! 3 = 0x12
          then Inr ''v64''
        else Inl Main_ErrUnsupportedROMFormat)"

subsection \<open>Header normalisation\<close>

text \<open>
  \<open>convHeader\<close> is made with the length of \<open>rawHeader\<close>; a slice expression
  \<open>convHeader[i:i+4]\<close> or \<open>rawHeader[i:i+4]\<close> that reaches past the end panics (the
  slices come from \<open>make\<close>, so capacity and length agree), and likewise with
  \<open>i+2\<close>.
\<close>

function n64_loop :: "byte list \<Rightarrow> nat \<Rightarrow> byte list \<Rightarrow> error + byte list" where
  "n64_loop rawHeader i convHeader =
     (if i < length rawHeader then
        (if length convHeader < i + 4 \<or> length rawHeader < i + 4 then Inl RuntimePanic
         else n64_loop rawHeader (i + 4)
                (put_slice convHeader i
                   (BigEndian_PutUint32 (LittleEndian_Uint32 (take 4 (drop i rawHeader))))))
      else Inr convHeader)"
  by pat_completeness auto
termination
  by (relation "measure (\<lambda>(rawHeader, i, convHeader). length rawHeader - i)") auto

declare n64_loop.simps [simp del]

function v64_loop :: "byte list \<Rightarrow> nat \<Rightarrow> byte list \<Rightarrow> error + byte list" where
  "v64_loop rawHeader i convHeader =
     (if i < length rawHeader then
        (if length convHeader < i + 2 \<or> length rawHeader < i + 2 then Inl RuntimePanic
         else v64_loop rawHeader (i + 2)
                (put_slice convHeader i
                   (BigEndian_PutUint16 (LittleEndian_Uint16 (take 2 (drop i rawHeader))))))
      else Inr convHeader)"
  by pat_completeness auto
termination
  by (relation "measure (\<lambda>(rawHeader, i, convHeader). length rawHeader - i)") auto

declare v64_loop.simps [simp del]

definition convertHeaderEndianness :: "byte list \<Rightarrow> string \<Rightarrow> error + byte list" where
  "convertHeaderEndianness rawHeader romMode =
     (let convHeader = replicate (length rawHeader) 0 in
      if romMode = ''z64'' then Inr (copy_into convHeader rawHeader)
      else if romMode = ''n64'' then n64_loop rawHeader 0 convHeader
      else if romMode = ''v64'' then v64_loop rawHeader 0 convHeader
      else Inr convHeader)"

text \<open>
  In \<open>main.go\<close> the same step is written inline in \<open>processRom\<close>, byte by byte, over
  the constant length \<open>0x40\<close>; an index outside \<open>rawHeader\<close> panics.
\<close>

function main_n64_loop :: "byte list \<Rightarrow> nat \<Rightarrow> byte list \<Rightarrow> error + byte list" where
  "main_n64_loop rawHeader i convHeader =
     (if i < 0x40 then
        (if length rawHeader < i + 4 \<or> length convHeader < i + 4 then Inl RuntimePanic
         else main_n64_loop rawHeader (i + 4)
                (convHeader[i := rawHeader ! (i + 3), i + 1 := rawHeader ! (i + 2),
                            i + 2 := rawHeader ! (i + 1), i + 3 := rawHeader ! i]))
      else Inr convHeader)"
  by pat_completeness auto
termination
  by (relation "measure (\<lambda>(rawHeader, i, convHeader). 0x40 - i)") auto

declare main_n64_loop.simps [simp del]

function main_v64_loop :: "byte list \<Rightarrow> nat \<Rightarrow> byte list \<Rightarrow> error + byte list" where
  "main_v64_loop rawHeader i convHeader =
     (if i < 0x40 then
        (if length rawHeader < i + 2 \<or> length convHeader < i + 2 then Inl RuntimePanic
         else main_v64_loop rawHeader (i + 2)
                (convHeader[i := rawHeader ! (i + 1), i + 1 := rawHeader ! i]))
      else Inr convHeader)"
  by pat_completeness auto
termination
  by (relation "measure (\<lambda>(rawHeader, i, convHeader). 0x40 - i)") auto

declare main_v64_loop.simps [simp del]

definition main_convHeader :: "byte list \<Rightarrow> string \<Rightarrow> error + byte list" where
  "main_convHeader rawHeader romMode =
     (let convHeader = replicate 0x40 0 in
      if romMode = ''z64'' then Inr (copy_into convHeader rawHeader)
      else if romMode = ''n64'' then main_n64_loop rawHeader 0 convHeader
      else if romMode = ''v64'' then main_v64_loop rawHeader 0 convHeader
      else Inr convHeader)"

subsection \<open>Title extraction\<close>

definition allowed_rune :: "rune \<Rightarrow> bool" where
  \<comment> \<open>the condition of the \<open>if\<close> in the loop over the title's runes\<close>
  "allowed_rune r \<longleftrightarrow>
     (0x41 \<le> sint r \<and> sint r \<le> 0x5A) \<or> (0x61 \<le> sint r \<and> sint r \<le> 0x7A)
       \<or> (0x30 \<le> sint r \<and> sint r \<le> 0x39) \<or> sint r = 0x20"

definition clean_runes :: "byte list \<Rightarrow> byte list" where
  \<comment> \<open>the loop: every allowed rune of the title is written out, the others are skipped\<close>
  "clean_runes title = foldl AppendRune [] (filter allowed_rune (range_runes title))"

definition extractCleanTitle :: "byte list \<Rightarrow> error + string" where
  "extractCleanTitle convHeader =
     (if length convHeader < 0x20 + 20 then Inl RuntimePanic
      else let titleField = take 20 (drop 0x20 convHeader);
               titleBytes = TrimRight_space titleField
           in Inr (go_string (clean_runes titleBytes)))"


subsection \<open>Content hash\<close>

text \<open>
  \<open>crypto/sha256\<close> of Go's standard library, after its portable implementation: the
  compression function \<open>block\<close>, and the streaming \<open>digest\<close> with its chaining value
  \<open>h\<close>, the bytes \<open>x[:nx]\<close> of an incomplete block, and the number \<open>len\<close> of bytes
  written.
\<close>

definition BigEndian_PutUint64 :: "64 word \<Rightarrow> byte list" where
  "BigEndian_PutUint64 v =
     [ucast (drop_bit 56 v), ucast (drop_bit 48 v), ucast (drop_bit 40 v),
      ucast (drop_bit 32 v), ucast (drop_bit 24 v), ucast (drop_bit 16 v),
      ucast (drop_bit 8 v), ucast v]"

definition sha256_K :: "32 word list" where
  "sha256_K =
    [0x428a2f98, 0x71374491, 0xb5c0fbcf, 0xe9b5dba5, 0x3956c25b, 0x59f111f1, 0x923f82a4,
     0xab1c5ed5, 0xd807aa98, 0x12835b01, 0x243185be, 0x550c7dc3, 0x72be5d74, 0x80deb1fe,
     0x9bdc06a7, 0xc19bf174, 0xe49b69c1, 0xefbe4786, 0x0fc19dc6, 0x240ca1cc, 0x2de92c6f,
     0x4a7484aa, 0x5cb0a9dc, 0x76f988da, 0x983e5152, 0xa831c66d, 0xb00327c8, 0xbf597fc7,
     0xc6e00bf3, 0xd5a79147, 0x06ca6351, 0x14292967, 0x27b70a85, 0x2e1b2138, 0x4d2c6dfc,
     0x53380d13, 0x650a7354, 0x766a0abb, 0x81c2c92e, 0x92722c85, 0xa2bfe8a1, 0xa81a664b,
     0xc24b8b70, 0xc76c51a3, 0xd192e819, 0xd6990624, 0xf40e3585, 0x106aa070, 0x19a4c116,
     0x1e376c08, 0x2748774c, 0x34b0bcb5, 0x391c0cb3, 0x4ed8aa4a, 0x5b9cca4f, 0x682e6ff3,
     0x748f82ee, 0x78a5636f, 0x84c87814, 0x8cc70208, 0x90befffa, 0xa4506ceb, 0xbef9a3f7,
     0xc67178f2]"

definition sha256_init :: "32 word list" where
  "sha256_init =
    [0x6a09e667, 0xbb67ae85, 0x3c6ef372, 0xa54ff53a, 0x510e527f, 0x9b05688c, 0x1f83d9ab,
     0x5be0cd19]"

definition rotr :: "nat \<Rightarrow> 32 word \<Rightarrow> 32 word" where
  \<comment> \<open>\<open>bits.RotateLeft32(x, -n)\<close>\<close>
  "rotr n v = drop_bit n v OR push_bit (32 - n) v"

fun load_words :: "byte list \<Rightarrow> 32 word list" where
  "load_words (a # b # c # d # rest) = BigEndian_Uint32 [a, b, c, d] # load_words rest"
| "load_words rest = []"

fun extend_schedule :: "nat \<Rightarrow> 32 word list \<Rightarrow> 32 word list" where
  "extend_schedule 0 w = w"
| "extend_schedule (Suc k) w =
     (let i = length w;
          v1 = w ! (i - 2);
          t1 = rotr 17 v1 XOR rotr 19 v1 XOR drop_bit 10 v1;
          v2 = w ! (i - 15);
          t2 = rotr 7 v2 XOR rotr 18 v2 XOR drop_bit 3 v2
      in extend_schedule k (w @ [t1 + w ! (i - 7) + t2 + w ! (i - 16)]))"

fun sha256_round :: "32 word list \<Rightarrow> 32 word \<times> 32 word \<Rightarrow> 32 word list" where
  "sha256_round [a, b, c, d, e, f, g, hh] (k, w) =
     (let t1 = hh + (rotr 6 e XOR rotr 11 e XOR rotr 25 e) + ((e AND f) XOR (NOT e AND g))
                 + k + w;
          t2 = (rotr 2 a XOR rotr 13 a XOR rotr 22 a) + ((a AND b) XOR (a AND c) XOR (b AND c))
      in [t1 + t2, a, b, c, d + t1, e, f, g])"
| "sha256_round s kw = s"

definition sha256_block :: "32 word list \<Rightarrow> byte list \<Rightarrow> 32 word list" where
  \<comment> \<open>one 64-byte chunk: message schedule, 64 rounds, addition to the chaining value\<close>
  "sha256_block hs p =
     (let w = extend_schedule 48 (load_words (take 64 p))
      in map2 (+) hs (foldl sha256_round hs (zip sha256_K w)))"

function sha256_blocks :: "32 word list \<Rightarrow> byte list \<Rightarrow> 32 word list" where
  \<comment> \<open>\<open>block(d, p)\<close>: the loop \<open>for len(p) >= chunk\<close>\<close>
  "sha256_blocks hs p =
     (if 64 \<le> length p then sha256_blocks (sha256_block hs p) (drop 64 p) else hs)"
  by pat_completeness auto
termination
  by (relation "measure (\<lambda>(hs, p). length p)") auto

declare sha256_blocks.simps [simp del]

record digest =
  dig_h :: "32 word list"
  dig_x :: "byte list"
  dig_len :: "64 word"

definition sha256_New :: digest where
  "sha256_New = \<lparr>dig_h = sha256_init, dig_x = [], dig_len = 0\<rparr>"

definition digest_fill :: "digest \<Rightarrow> byte list \<Rightarrow> digest \<times> byte list" where
  \<comment> \<open>\<open>Write\<close>, the branch \<open>if d.nx > 0\<close>: complete the pending block; returns the rest of \<open>p\<close>\<close>
  "digest_fill d p =
     (if dig_x d \<noteq> [] then
        (let n = min (64 - length (dig_x d)) (length p);
             xs = dig_x d @ take n p
         in ((if length xs = 64
                then d\<lparr>dig_h := sha256_blocks (dig_h d) xs, dig_x := []\<rparr>
                else d\<lparr>dig_x := xs\<rparr>),
             drop n p))
      else (d, p))"

definition digest_rest :: "digest \<Rightarrow> byte list \<Rightarrow> digest" where
  \<comment> \<open>\<open>Write\<close>, the branches \<open>if len(p) >= chunk\<close> and \<open>if len(p) > 0\<close>\<close>
  "digest_rest d p =
     (let n = length p - length p mod 64;
          d' = (if 64 \<le> length p
                  then d\<lparr>dig_h := sha256_blocks (dig_h d) (take n p)\<rparr> else d);
          p' = (if 64 \<le> length p then drop n p else p)
      in if p' \<noteq> [] then d'\<lparr>dig_x := p'\<rparr> else d')"

definition digest_Write :: "digest \<Rightarrow> byte list \<Rightarrow> digest" where
  "digest_Write d p =
     (let d1 = d\<lparr>dig_len := dig_len d + word_of_nat (length p)\<rparr>;
          (d2, p2) = digest_fill d1 p
      in digest_rest d2 p2)"

definition digest_checkSum :: "digest \<Rightarrow> error + byte list" where
  "digest_checkSum d =
     (let l = dig_len d;
          t = (if l mod 64 < 56 then 56 - l mod 64 else 64 + 56 - l mod 64);
          padlen = (0x80 # replicate (unat t - 1) 0) @ BigEndian_PutUint64 (push_bit 3 l);
          d' = digest_Write d padlen
      in if dig_x d' \<noteq> [] then Inl RuntimePanic
         else Inr (concat (map BigEndian_PutUint32 (dig_h d'))))"

definition digest_Sum :: "digest \<Rightarrow> error + byte list" where
  \<comment> \<open>\<open>Sum(nil)\<close> finishes a copy of the digest\<close>
  "digest_Sum d = digest_checkSum d"

text \<open>
  \<open>io.CopyBuffer\<close> and \<open>io.Copy\<close> into the hasher: read up to the buffer's length,
  write what was read, stop at the end of the file. An empty buffer panics. Which buffer
  the library really reads with depends on its version (a file that offers \<open>WriteTo\<close>
  is copied with the library's own 32 KiB buffer), so the length is a parameter.
\<close>

function copy_to_hasher :: "nat \<Rightarrow> byte list \<Rightarrow> digest \<Rightarrow> digest" where
  "copy_to_hasher k rest d =
     (if k = 0 then d
      else case snd (File_Read rest k) of
             Some er \<Rightarrow> d
           | None \<Rightarrow> copy_to_hasher k (drop (length (fst (File_Read rest k))) rest)
                       (digest_Write d (fst (File_Read rest k))))"
  by pat_completeness auto
termination
  by (relation "measure (\<lambda>(k, rest, d). length rest)")
     (auto simp: File_Read_def split: if_splits)

declare copy_to_hasher.simps [simp del]

definition io_CopyBuffer :: "digest \<Rightarrow> byte list \<Rightarrow> nat \<Rightarrow> error + digest" where
  "io_CopyBuffer dst src k =
     (if k = 0 then Inl RuntimePanic else Inr (copy_to_hasher k src dst))"

definition hexdigit :: "byte \<Rightarrow> char" where
  \<comment> \<open>the digits of the verb \<open>%X\<close>\<close>
  "hexdigit d = ''0123456789ABCDEF'' ! unat d"

definition Sprintf_X :: "byte list \<Rightarrow> string" where
  \<comment> \<open>\<open>fmt.Sprintf("%X", b)\<close> on a byte slice: two digits a byte, nothing between\<close>
  "Sprintf_X bs = concat (map (\<lambda>b. [hexdigit (drop_bit 4 b), hexdigit (b AND 0x0F)]) bs)"

definition hash_file :: "nat \<Rightarrow> byte list \<Rightarrow> error + string" where
  \<comment> \<open>a new hasher, the copy with a buffer of \<open>k\<close> bytes, \<open>Sum\<close>, \<open>%X\<close>\<close>
  "hash_file k content =
     (case io_CopyBuffer sha256_New content k of
        Inl e \<Rightarrow> Inl e
      | Inr hasher \<Rightarrow>
          (case digest_Sum hasher of
             Inl e \<Rightarrow> Inl e
           | Inr hashSum \<Rightarrow> Inr (Sprintf_X hashSum)))"

definition computeSHA256 :: "filesystem \<Rightarrow> string \<Rightarrow> error + string" where
  "computeSHA256 fs romFile =
     (case fs romFile of
        None \<Rightarrow> Inl (ErrOpeningROMForHashing ErrNotExist)
      | Some content \<Rightarrow> hash_file 4096 content)"

subsection \<open>\<open>processRom\<close>\<close>

definition processRom :: "filesystem \<Rightarrow> string \<Rightarrow> error + (string \<times> string)" where
  "processRom fs romFile =
     (case fs romFile of
        None \<Rightarrow> Inl (ErrOpeningROM ErrNotExist)
      | Some content \<Rightarrow>
          (case io_ReadFull content 0x40 of
             (rawHeader, Some e) \<Rightarrow> Inl (ErrReadingROMHeader e)
           | (rawHeader, None) \<Rightarrow>
               (case detectRomFormat (take 4 rawHeader) of
                  Inl e \<Rightarrow> Inl e
                | Inr romMode \<Rightarrow>
                    (case convertHeaderEndianness rawHeader romMode of
                       Inl e \<Rightarrow> Inl e
                     | Inr convHeader \<Rightarrow>
                         (case extractCleanTitle convHeader of
                            Inl e \<Rightarrow> Inl e
                          | Inr cleanTitle \<Rightarrow>
                              (case computeSHA256 fs romFile of
                                 Inl e \<Rightarrow> Inl e
                               | Inr hashHex \<Rightarrow> Inr (cleanTitle, hashHex)))))))"

definition main_processRom :: "filesystem \<Rightarrow> string \<Rightarrow> error + (string \<times> string)" where
  \<comment> \<open>\<open>main.go\<close>: the same steps inline. The title is collected in a \<open>[]rune\<close> and
      converted with \<open>string\<close>, which encodes rune by rune as \<open>WriteRune\<close> does;
      \<open>io.Copy\<close> uses a buffer of 32 KiB\<close>
  "main_processRom fs romFile =
     (case fs romFile of
        None \<Rightarrow> Inl (ErrOpeningROM ErrNotExist)
      | Some content \<Rightarrow>
          (case io_ReadFull content 0x40 of
             (rawHeader, Some e) \<Rightarrow> Inl (ErrReadingROMHeader e)
           | (rawHeader, None) \<Rightarrow>
               if length rawHeader < 0x40 then Inl ErrROMHeaderIncomplete
               else
               (case main_detect rawHeader of
                  Inl e \<Rightarrow> Inl e
                | Inr romMode \<Rightarrow>
                    (case main_convHeader rawHeader romMode of
                       Inl e \<Rightarrow> Inl e
                     | Inr convHeader \<Rightarrow>
                         (case extractCleanTitle convHeader of
                            Inl e \<Rightarrow> Inl e
                          | Inr cleanTitle \<Rightarrow>
                              (case fs romFile of
                                 None \<Rightarrow> Inl (ErrOpeningROMForHashing ErrNotExist)
                               | Some content' \<Rightarrow>
                                   (case hash_file (32 * 1024) content' of
                                      Inl e \<Rightarrow> Inl e
                                    | Inr hashHex \<Rightarrow> Inr (cleanTitle, hashHex))))))))"

section \<open>Save transformation\<close>

subsection \<open>Byte-swap conversion\<close>

text \<open>
  The loops run on the bytes the input handle still has to deliver and on the bytes
  written to the output file so far; they return the output file as the loop leaves it
  and the error (\<open>None\<close> when the loop ends with \<open>break\<close>).
\<close>

function convert_loop :: "byte list \<Rightarrow> byte list \<Rightarrow> byte list \<times> error option" where
  "convert_loop inFile outFile =
     (case snd (io_ReadFull inFile 4) of
        Some err \<Rightarrow>
          if err = EOF then (outFile, None)
          else (outFile, Some (ErrReadingSaveFile err))
      | None \<Rightarrow>
          (let buf = fst (io_ReadFull inFile 4) in
           if length buf \<noteq> 4 then (outFile, Some (ErrUnexpectedReadSize (length buf)))
           else convert_loop (drop (length buf) inFile)
                  (outFile @ LittleEndian_PutUint32 (BigEndian_Uint32 buf))))"
  by pat_completeness auto
termination
  by (relation "measure (\<lambda>(inFile, outFile). length inFile)")
     (auto simp: io_ReadFull_def split: if_splits)

declare convert_loop.simps [simp del]

definition convertSaveFile ::
  "filesystem \<Rightarrow> string \<Rightarrow> string \<Rightarrow> filesystem \<times> error option" where
  "convertSaveFile fs src dst =
     (case fs src of
        None \<Rightarrow> (fs, Some (ErrOpeningSaveFile ErrNotExist))
      | Some content \<Rightarrow>
          (let fs' = fs(dst \<mapsto> []);
               inFile = (case fs' src of None \<Rightarrow> [] | Some bytes \<Rightarrow> bytes);
               (outFile, err) = convert_loop inFile []
           in (fs'(dst \<mapsto> outFile), err)))"

function main_convert_loop :: "byte list \<Rightarrow> byte list \<Rightarrow> byte list \<times> error option" where
  "main_convert_loop inFile outFile =
     (case snd (File_Read inFile 4) of
        Some err \<Rightarrow>
          if err = EOF then (outFile, None)
          else (outFile, Some (ErrReadingSaveFile err))
      | None \<Rightarrow>
          (let buf = fst (File_Read inFile 4) in
           if length buf < 4 then (outFile, Some Main_ErrNotMultipleOf4)
           else main_convert_loop (drop (length buf) inFile)
                  (outFile @ LittleEndian_PutUint32 (BigEndian_Uint32 buf))))"
  by pat_completeness auto
termination
  by (relation "measure (\<lambda>(inFile, outFile). length inFile)")
     (auto simp: File_Read_def split: if_splits)

declare main_convert_loop.simps [simp del]

definition main_convertSaveFile ::
  "filesystem \<Rightarrow> string \<Rightarrow> string \<Rightarrow> filesystem \<times> error option" where
  "main_convertSaveFile fs inPath outPath =
     (case fs inPath of
        None \<Rightarrow> (fs, Some (ErrOpeningSaveFile ErrNotExist))
      | Some content \<Rightarrow>
          (let fs' = fs(outPath \<mapsto> []);
               inFile = (case fs' inPath of None \<Rightarrow> [] | Some bytes \<Rightarrow> bytes);
               (outFile, err) = main_convert_loop inFile []
           in (fs'(outPath \<mapsto> outFile), err)))"

subsection \<open>Copy with size normalisation\<close>

definition fullmempakSize :: int where
  "fullmempakSize = 128 * 1024"

definition mempakSize :: int where
  "mempakSize = 32 * 1024"

function write_copies :: "int \<Rightarrow> int \<Rightarrow> byte list \<Rightarrow> byte list \<Rightarrow> byte list" where
  \<comment> \<open>\<open>for i := 1; i < numCopies; i++ { out.Write(fileData) }\<close>\<close>
  "write_copies i numCopies fileData out =
     (if i < numCopies then write_copies (i + 1) numCopies fileData (out @ fileData)
      else out)"
  by pat_completeness auto
termination
  by (relation "measure (\<lambda>(i, numCopies, fileData, out). nat (numCopies - i))") auto

declare write_copies.simps [simp del]

definition normalize_and_write :: "byte list \<Rightarrow> int \<Rightarrow> byte list" where
  \<comment> \<open>\<open>copyFile\<close> from the trimming to the final padding: what \<open>out\<close> receives\<close>
  "normalize_and_write fileData0 targetSize =
     (let fileSize0 = int (length fileData0);
          fileData1 = (if fileSize0 > fullmempakSize
                         then take (nat fullmempakSize) fileData0 else fileData0);
          fileSize1 = (if fileSize0 > fullmempakSize then fullmempakSize else fileSize0);
          fileData = (if fileSize1 \<le> mempakSize
                        then fileData1 @ replicate (nat (mempakSize - fileSize1)) 0
                        else fileData1);
          fileSize = (if fileSize1 \<le> mempakSize then int (length fileData) else fileSize1);
          out1 = fileData;
          numCopies = 1 + (if targetSize > fileSize
                             then (targetSize - fileSize) sdiv fileSize else 0);
          bytesToPad = (if targetSize > fileSize
                          then (targetSize - fileSize) smod fileSize else 0);
          out2 = (if numCopies > 1 then write_copies 1 numCopies fileData out1 else out1)
      in if bytesToPad > 0 then out2 @ replicate (nat bytesToPad) 0 else out2)"

definition copyFile ::
  "filesystem \<Rightarrow> string \<Rightarrow> string \<Rightarrow> int \<Rightarrow> filesystem \<times> error option" where
  "copyFile fs src dst targetSize =
     (case fs src of
        None \<Rightarrow> (fs, Some (ErrOpeningSourceFile ErrNotExist))
      | Some content \<Rightarrow>
          (let fs' = fs(dst \<mapsto> []);
               inFile = (case fs' src of None \<Rightarrow> [] | Some bytes \<Rightarrow> bytes)
           in if targetSize = 0 then (fs'(dst \<mapsto> inFile), None)
              else let fileData = inFile in
                if int (length fileData) = 0 then (fs', Some ErrSourceFileEmpty)
                else (fs'(dst \<mapsto> normalize_and_write fileData targetSize), None)))"

subsection \<open>The choice of the transformation in \<open>main\<close>\<close>

definition ConversionExtensions :: "string \<Rightarrow> bool" where
  \<comment> \<open>the map \<open>ConversionExtensions\<close>; a key it does not hold reads as \<open>false\<close>\<close>
  "ConversionExtensions ext \<longleftrightarrow> ext = ''.fla'' \<or> ext = ''.sra''"

definition transform_save ::
  "filesystem \<Rightarrow> string \<Rightarrow> string \<Rightarrow> string \<Rightarrow> filesystem \<times> error option" where
  \<comment> \<open>the last step of \<open>main\<close>, for the extension \<open>saveExt\<close> of the save file\<close>
  "transform_save fs saveExt saveFile outputFile =
     (if ConversionExtensions saveExt then convertSaveFile fs saveFile outputFile
      else let targetSize = (if saveExt = ''.mpk'' then fullmempakSize
                             else if saveExt = ''.pak'' then fullmempakSize
                             else 0)
           in copyFile fs saveFile outputFile targetSize)"

section \<open>Notions the properties are stated with\<close>

subsection \<open>Group reversal\<close>

text \<open>
  Reversing the byte order within each non-overlapping group of four, respectively two,
  elements; elements after the last whole group stay as they are. \<open>complete_groups4\<close>
  is the part of a list that consists of whole groups of four.
\<close>

fun reverse_groups4 :: "'a list \<Rightarrow> 'a list" where
  "reverse_groups4 (a # b # c # d # rest) = d # c # b # a # reverse_groups4 rest"
| "reverse_groups4 rest = rest"

fun reverse_groups2 :: "'a list \<Rightarrow> 'a list" where
  "reverse_groups2 (a # b # rest) = b # a # reverse_groups2 rest"
| "reverse_groups2 rest = rest"

definition complete_groups4 :: "'a list \<Rightarrow> 'a list" where
  "complete_groups4 xs = take (length xs - length xs mod 4) xs"

text \<open>Applying a fallible transformation to its own result.\<close>

definition twice :: "(byte list \<Rightarrow> error + byte list) \<Rightarrow> byte list \<Rightarrow> error + byte list" where
  "twice f h = (case f h of Inl e \<Rightarrow> Inl e | Inr h' \<Rightarrow> f h')"

subsection \<open>Title characters and magic sequences\<close>

text \<open>
  The characters a title keeps, as bytes: \<open>A-Z\<close>, \<open>a-z\<close>, \<open>0-9\<close> and the space; and the
  three magic sequences.
\<close>

definition allowed_byte :: "byte \<Rightarrow> bool" where
  "allowed_byte b \<longleftrightarrow>
     (0x41 \<le> b \<and> b \<le> 0x5A) \<or> (0x61 \<le> b \<and> b \<le> 0x7A) \<or> (0x30 \<le> b \<and> b \<le> 0x39) \<or> b = 0x20"

definition known_magic :: "byte list \<Rightarrow> bool" where
  "known_magic m \<longleftrightarrow>
     m = [0x80, 0x37, 0x12, 0x40] \<or> m = [0x40, 0x12, 0x37, 0x80] \<or> m = [0x37, 0x80, 0x40, 0x12]"

subsection \<open>Size normalisation\<close>

text \<open>
  The unit of a payload (cut to 131072 bytes, then filled with zero bytes up to 32768
  bytes when it is not longer than that), and a unit tiled into a container: as many
  whole copies as fit, then zero bytes.
\<close>

definition save_unit :: "byte list \<Rightarrow> byte list" where
  "save_unit payload =
     (let p = take 131072 payload
      in if length p \<le> 32768 then p @ replicate (32768 - length p) 0 else p)"

definition tile :: "nat \<Rightarrow> byte list \<Rightarrow> byte list" where
  "tile target u =
     concat (replicate (target div length u) u) @ replicate (target mod length u) 0"

subsection \<open>SHA-256 of a message\<close>

text \<open>
  SHA-256 as the standard (FIPS 180-4) defines it on a whole message: append the byte
  \<open>0x80\<close>, the least number of zero bytes that brings the length to 56 modulo 64, and
  the length of the message in bits as 64 bits big-endian; run the compression function
  over the 64-byte blocks from the initial hash value; write the eight words
  big-endian. \<open>digest_of msg\<close> is the state of the streaming hasher after the bytes
  \<open>msg\<close> have been written to it.
\<close>

definition sha256_pad :: "byte list \<Rightarrow> byte list" where
  "sha256_pad msg =
     msg @ [0x80] @ replicate ((119 - length msg mod 64) mod 64) 0
       @ BigEndian_PutUint64 (word_of_nat (8 * length msg))"

definition SHA256 :: "byte list \<Rightarrow> byte list" where
  "SHA256 msg = concat (map BigEndian_PutUint32 (sha256_blocks sha256_init (sha256_pad msg)))"

definition digest_of :: "byte list \<Rightarrow> digest" where
  "digest_of msg =
     \<lparr>dig_h = sha256_blocks sha256_init msg,
      dig_x = drop (length msg - length msg mod 64) msg,
      dig_len = word_of_nat (length msg)\<rparr>"

subsection \<open>Facts checked byte by byte\<close>

text \<open>
  Properties of one byte that the proofs establish for each of the 256 bytes by
  evaluation: how an ASCII byte and a byte from \<open>0x80\<close> on decode, what a lead byte of a
  multi-byte sequence and a continuation byte contribute to the rune, and the characters
  that the two hexadecimal digits of a byte are printed with.
\<close>

definition ascii_ok :: "byte \<Rightarrow> bool" where
  "ascii_ok b \<longleftrightarrow> (if b < 0x80
     then utf8_first b = 0xF0 \<and> allowed_rune (ucast b) = allowed_byte b
          \<and> (ucast b :: rune) \<le> 0x7F \<and> (ucast (ucast b :: rune) :: byte) = b
     else \<not> allowed_byte b \<and> utf8_first b \<noteq> 0xF0)"

definition lead_ok :: "byte \<Rightarrow> bool" where
  "lead_ok b \<longleftrightarrow> (if utf8_first b < 0xF0
     then (unat (utf8_first b AND 7) = 2 \<or> unat (utf8_first b AND 7) = 3 \<or> unat (utf8_first b AND 7) = 4)
        \<and> 0x80 \<le> fst (acceptRanges (unat (drop_bit 4 (utf8_first b))))
        \<and> snd (acceptRanges (unat (drop_bit 4 (utf8_first b)))) \<le> 0xBF
        \<and> (unat (utf8_first b AND 7) = 2 \<longrightarrow> (0x80 :: rune) \<le> push_bit 6 (ucast (b AND 0x1F)))
        \<and> (unat (utf8_first b AND 7) = 3 \<longrightarrow>
              (0x80 :: rune) \<le> push_bit 12 (ucast (b AND 0x0F))
              \<or> 0xA0 \<le> fst (acceptRanges (unat (drop_bit 4 (utf8_first b)))))
        \<and> (unat (utf8_first b AND 7) = 4 \<longrightarrow>
              (0x80 :: rune) \<le> push_bit 18 (ucast (b AND 0x07))
              \<or> 0x90 \<le> fst (acceptRanges (unat (drop_bit 4 (utf8_first b)))))
     else True)"

definition cont_ok :: "byte \<Rightarrow> bool" where
  "cont_ok b \<longleftrightarrow>
     (if 0xA0 \<le> b \<and> b \<le> 0xBF then (0x80 :: rune) \<le> push_bit 6 (ucast (b AND 0x3F)) else True)
   \<and> (if 0x90 \<le> b \<and> b \<le> 0xBF then (0x80 :: rune) \<le> push_bit 12 (ucast (b AND 0x3F)) else True)"

definition hex_ok :: "byte \<Rightarrow> bool" where
  "hex_ok b \<longleftrightarrow> hexdigit (drop_bit 4 b) \<in> set ''0123456789ABCDEF''
                \<and> hexdigit (b AND 0x0F) \<in> set ''0123456789ABCDEF''"

subsection \<open>Example stores\<close>

text \<open>Small file stores on which the theorems are instantiated.\<close>

definition example_store :: filesystem where
  "example_store = [''game.sra'' \<mapsto> [1, 2, 3, 4, 5, 6, 7, 8], ''odd.sra'' \<mapsto> [1, 2, 3, 4, 5],
                    ''empty.sra'' \<mapsto> []]"

definition pak_store :: filesystem where
  "pak_store = [''game.mpk'' \<mapsto> [0x81, 0x01, 0x02], ''full.mpk'' \<mapsto> replicate 32768 7,
                ''empty.eep'' \<mapsto> []]"

definition zero_rom :: filesystem where
  "zero_rom = [''zero.z64'' \<mapsto> replicate 0x1000 0]"

definition rom_store :: filesystem where
  "rom_store =
     [''game.z64'' \<mapsto> [0x80, 0x37, 0x12, 0x40] @ replicate 28 0 @ go_bytes ''SUPER GAME!!''
                          @ replicate 8 0x20 @ replicate 12 0 @ replicate 4096 0xFF,
      ''empty.z64'' \<mapsto> []]"

section \<open>Header normalisation is an involution\<close>

lemma length_reverse_groups4 [simp]: "length (reverse_groups4 xs) = length xs"
  by (induction xs rule: reverse_groups4.induct) auto

lemma length_reverse_groups2 [simp]: "length (reverse_groups2 xs) = length xs"
  by (induction xs rule: reverse_groups2.induct) auto

lemma reverse_groups4_twice: "reverse_groups4 (reverse_groups4 xs) = xs"
  by (induction xs rule: reverse_groups4.induct) auto

lemma reverse_groups2_twice: "reverse_groups2 (reverse_groups2 xs) = xs"
  by (induction xs rule: reverse_groups2.induct) auto

lemma swap32_be_le: "BigEndian_PutUint32 (LittleEndian_Uint32 [a, b, c, d]) = [d, c, b, a]"
  unfolding BigEndian_PutUint32_def LittleEndian_Uint32_def
  apply simp
  apply (intro conjI bit_word_eqI)
  apply (auto simp add: bit_simps dest: bit_imp_le_length)
  done

lemma swap32_le_be: "LittleEndian_PutUint32 (BigEndian_Uint32 [a, b, c, d]) = [d, c, b, a]"
  unfolding LittleEndian_PutUint32_def BigEndian_Uint32_def
  apply simp
  apply (intro conjI bit_word_eqI)
  apply (auto simp add: bit_simps dest: bit_imp_le_length)
  done

lemma swap16_be_le: "BigEndian_PutUint16 (LittleEndian_Uint16 [a, b]) = [b, a]"
  unfolding BigEndian_PutUint16_def LittleEndian_Uint16_def
  apply simp
  apply (intro conjI bit_word_eqI)
  apply (auto simp add: bit_simps dest: bit_imp_le_length)
  done

lemma drop_4_split:
  assumes "i + 4 \<le> length xs"
  shows "drop i xs = xs ! i # xs ! (i + 1) # xs ! (i + 2) # xs ! (i + 3) # drop (i + 4) xs"
proof -
  have "drop i xs = xs ! i # drop (Suc i) xs"
    using assms by (simp add: Cons_nth_drop_Suc)
  also have "drop (Suc i) xs = xs ! (i + 1) # drop (Suc (Suc i)) xs"
    using assms by (simp add: Cons_nth_drop_Suc)
  also have "drop (Suc (Suc i)) xs = xs ! (i + 2) # drop (Suc (Suc (Suc i))) xs"
    using assms by (simp add: Cons_nth_drop_Suc)
  also have "drop (Suc (Suc (Suc i))) xs = xs ! (i + 3) # drop (i + 4) xs"
    using assms Cons_nth_drop_Suc [of "i + 3" xs] by (simp add: numeral_eq_Suc)
  finally show ?thesis .
qed

lemma drop_2_split:
  assumes "i + 2 \<le> length xs"
  shows "drop i xs = xs ! i # xs ! (i + 1) # drop (i + 2) xs"
proof -
  have "drop i xs = xs ! i # drop (Suc i) xs"
    using assms by (simp add: Cons_nth_drop_Suc)
  also have "drop (Suc i) xs = xs ! (i + 1) # drop (i + 2) xs"
    using assms Cons_nth_drop_Suc [of "i + 1" xs] by simp
  finally show ?thesis .
qed

lemma n64_loop_eq:
  "length convHeader = length rawHeader \<Longrightarrow> i \<le> length rawHeader \<Longrightarrow>
   4 dvd (length rawHeader - i) \<Longrightarrow>
   n64_loop rawHeader i convHeader = Inr (take i convHeader @ reverse_groups4 (drop i rawHeader))"
proof (induction rawHeader i convHeader rule: n64_loop.induct)
  case (1 rawHeader i convHeader)
  show ?case
  proof (cases "i < length rawHeader")
    case False
    with "1.prems" show ?thesis by (subst n64_loop.simps) simp
  next
    case True
    with "1.prems" have le: "i + 4 \<le> length rawHeader"
      by presburger
    let ?sw = "[rawHeader ! (i + 3), rawHeader ! (i + 2), rawHeader ! (i + 1), rawHeader ! i]"
    let ?c = "put_slice convHeader i ?sw"
    have d: "drop i rawHeader = rawHeader ! i # rawHeader ! (i + 1) # rawHeader ! (i + 2)
               # rawHeader ! (i + 3) # drop (i + 4) rawHeader"
      by (rule drop_4_split [OF le])
    have sw: "BigEndian_PutUint32 (LittleEndian_Uint32 (take 4 (drop i rawHeader))) = ?sw"
      by (subst d) (simp add: swap32_be_le)
    have len: "length ?c = length rawHeader"
      using le "1.prems" by (simp add: put_slice_def)
    have dv: "4 dvd (length rawHeader - (i + 4))"
      using "1.prems" le by presburger
    have ih: "n64_loop rawHeader (i + 4) ?c = Inr (take (i + 4) ?c @ reverse_groups4 (drop (i + 4) rawHeader))"
      using "1.IH" [OF True] le "1.prems" len dv sw by simp
    have tk: "take (i + 4) ?c = take i convHeader @ ?sw"
      using le "1.prems" by (simp add: put_slice_def)
    have "n64_loop rawHeader i convHeader = n64_loop rawHeader (i + 4) ?c"
      using True le "1.prems" sw by (subst n64_loop.simps) simp
    also have "\<dots> = Inr (take i convHeader @ ?sw @ reverse_groups4 (drop (i + 4) rawHeader))"
      using ih tk by simp
    also have "?sw @ reverse_groups4 (drop (i + 4) rawHeader) = reverse_groups4 (drop i rawHeader)"
      by (simp add: d)
    finally show ?thesis .
  qed
qed


lemma v64_loop_eq:
  "length convHeader = length rawHeader \<Longrightarrow> i \<le> length rawHeader \<Longrightarrow>
   2 dvd (length rawHeader - i) \<Longrightarrow>
   v64_loop rawHeader i convHeader = Inr (take i convHeader @ reverse_groups2 (drop i rawHeader))"
proof (induction rawHeader i convHeader rule: v64_loop.induct)
  case (1 rawHeader i convHeader)
  show ?case
  proof (cases "i < length rawHeader")
    case False
    with "1.prems" show ?thesis by (subst v64_loop.simps) simp
  next
    case True
    with "1.prems" have le: "i + 2 \<le> length rawHeader"
      by presburger
    let ?sw = "[rawHeader ! (i + 1), rawHeader ! i]"
    let ?c = "put_slice convHeader i ?sw"
    have d: "drop i rawHeader = rawHeader ! i # rawHeader ! (i + 1) # drop (i + 2) rawHeader"
      by (rule drop_2_split [OF le])
    have sw: "BigEndian_PutUint16 (LittleEndian_Uint16 (take 2 (drop i rawHeader))) = ?sw"
      by (subst d) (simp add: swap16_be_le)
    have len: "length ?c = length rawHeader"
      using le "1.prems" by (simp add: put_slice_def)
    have dv: "2 dvd (length rawHeader - (i + 2))"
      using "1.prems" le by presburger
    have ih: "v64_loop rawHeader (i + 2) ?c = Inr (take (i + 2) ?c @ reverse_groups2 (drop (i + 2) rawHeader))"
      using "1.IH" [OF True] le "1.prems" len dv sw by simp
    have tk: "take (i + 2) ?c = take i convHeader @ ?sw"
      using le "1.prems" by (simp add: put_slice_def)
    have "v64_loop rawHeader i convHeader = v64_loop rawHeader (i + 2) ?c"
      using True le "1.prems" sw by (subst v64_loop.simps) simp
    also have "\<dots> = Inr (take i convHeader @ ?sw @ reverse_groups2 (drop (i + 2) rawHeader))"
      using ih tk by simp
    also have "?sw @ reverse_groups2 (drop (i + 2) rawHeader) = reverse_groups2 (drop i rawHeader)"
      by (simp add: d)
    finally show ?thesis .
  qed
qed

lemma update_2_slice:
  assumes "i + 2 \<le> length xs"
  shows "xs[i := a, i + 1 := b] = take i xs @ [a, b] @ drop (i + 2) xs"
  using assms
  by (intro nth_equalityI)
    (auto simp: nth_append nth_list_update nth_Cons' min_def intro!: arg_cong [where f = "(!) xs"])

lemma update_4_slice:
  assumes "i + 4 \<le> length xs"
  shows "xs[i := a, i + 1 := b, i + 2 := c, i + 3 := d] = take i xs @ [a, b, c, d] @ drop (i + 4) xs"
  using assms
  by (intro nth_equalityI)
    (auto simp: nth_append nth_list_update nth_Cons' min_def intro!: arg_cong [where f = "(!) xs"])

lemma main_n64_loop_eq:
  "length convHeader = 0x40 \<Longrightarrow> length rawHeader = 0x40 \<Longrightarrow> i \<le> 0x40 \<Longrightarrow>
   4 dvd (0x40 - i) \<Longrightarrow>
   main_n64_loop rawHeader i convHeader
     = Inr (take i convHeader @ reverse_groups4 (drop i rawHeader))"
proof (induction rawHeader i convHeader rule: main_n64_loop.induct)
  case (1 rawHeader i convHeader)
  show ?case
  proof (cases "i < 0x40")
    case False
    with "1.prems" show ?thesis by (subst main_n64_loop.simps) simp
  next
    case True
    with "1.prems" have le: "i + 4 \<le> 0x40"
      by presburger
    let ?sw = "[rawHeader ! (i + 3), rawHeader ! (i + 2), rawHeader ! (i + 1), rawHeader ! i]"
    let ?c = "convHeader[i := rawHeader ! (i + 3), i + 1 := rawHeader ! (i + 2),
                         i + 2 := rawHeader ! (i + 1), i + 3 := rawHeader ! i]"
    have d: "drop i rawHeader = rawHeader ! i # rawHeader ! (i + 1) # rawHeader ! (i + 2)
               # rawHeader ! (i + 3) # drop (i + 4) rawHeader"
      using le "1.prems" by (intro drop_4_split) simp
    have c: "?c = take i convHeader @ ?sw @ drop (i + 4) convHeader"
      using le "1.prems" by (intro update_4_slice) simp
    have dv: "4 dvd (0x40 - (i + 4))"
      using "1.prems" le by presburger
    have ih: "main_n64_loop rawHeader (i + 4) ?c
                = Inr (take (i + 4) ?c @ reverse_groups4 (drop (i + 4) rawHeader))"
      using "1.IH" [OF True] le "1.prems" dv by simp
    have tk: "take (i + 4) ?c = take i convHeader @ ?sw"
      using le "1.prems" by (subst c) simp
    have "main_n64_loop rawHeader i convHeader = main_n64_loop rawHeader (i + 4) ?c"
      using True le "1.prems" by (subst main_n64_loop.simps) simp
    also have "\<dots> = Inr (take i convHeader @ ?sw @ reverse_groups4 (drop (i + 4) rawHeader))"
      using ih tk by simp
    also have "?sw @ reverse_groups4 (drop (i + 4) rawHeader) = reverse_groups4 (drop i rawHeader)"
      by (simp add: d)
    finally show ?thesis .
  qed
qed

lemma main_v64_loop_eq:
  "length convHeader = 0x40 \<Longrightarrow> length rawHeader = 0x40 \<Longrightarrow> i \<le> 0x40 \<Longrightarrow>
   2 dvd (0x40 - i) \<Longrightarrow>
   main_v64_loop rawHeader i convHeader
     = Inr (take i convHeader @ reverse_groups2 (drop i rawHeader))"
proof (induction rawHeader i convHeader rule: main_v64_loop.induct)
  case (1 rawHeader i convHeader)
  show ?case
  proof (cases "i < 0x40")
    case False
    with "1.prems" show ?thesis by (subst main_v64_loop.simps) simp
  next
    case True
    with "1.prems" have le: "i + 2 \<le> 0x40"
      by presburger
    let ?sw = "[rawHeader ! (i + 1), rawHeader ! i]"
    let ?c = "convHeader[i := rawHeader ! (i + 1), i + 1 := rawHeader ! i]"
    have d: "drop i rawHeader = rawHeader ! i # rawHeader ! (i + 1) # drop (i + 2) rawHeader"
      using le "1.prems" by (intro drop_2_split) simp
    have c: "?c = take i convHeader @ ?sw @ drop (i + 2) convHeader"
      using le "1.prems" by (intro update_2_slice) simp
    have dv: "2 dvd (0x40 - (i + 2))"
      using "1.prems" le by presburger
    have ih: "main_v64_loop rawHeader (i + 2) ?c
                = Inr (take (i + 2) ?c @ reverse_groups2 (drop (i + 2) rawHeader))"
      using "1.IH" [OF True] le "1.prems" dv by simp
    have tk: "take (i + 2) ?c = take i convHeader @ ?sw"
      using le "1.prems" by (subst c) simp
    have "main_v64_loop rawHeader i convHeader = main_v64_loop rawHeader (i + 2) ?c"
      using True le "1.prems" by (subst main_v64_loop.simps) simp
    also have "\<dots> = Inr (take i convHeader @ ?sw @ reverse_groups2 (drop (i + 2) rawHeader))"
      using ih tk by simp
    also have "?sw @ reverse_groups2 (drop (i + 2) rawHeader) = reverse_groups2 (drop i rawHeader)"
      by (simp add: d)
    finally show ?thesis .
  qed
qed

lemma convertHeaderEndianness_z64:
  "convertHeaderEndianness h ''z64'' = Inr h"
  by (simp add: convertHeaderEndianness_def copy_into_def)

lemma convertHeaderEndianness_n64:
  "4 dvd length h \<Longrightarrow> convertHeaderEndianness h ''n64'' = Inr (reverse_groups4 h)"
  by (simp add: convertHeaderEndianness_def n64_loop_eq)

lemma convertHeaderEndianness_v64:
  "2 dvd length h \<Longrightarrow> convertHeaderEndianness h ''v64'' = Inr (reverse_groups2 h)"
  by (simp add: convertHeaderEndianness_def v64_loop_eq)

lemma main_convHeader_z64:
  "length h = 0x40 \<Longrightarrow> main_convHeader h ''z64'' = Inr h"
  by (simp add: main_convHeader_def copy_into_def)

lemma main_convHeader_n64:
  "length h = 0x40 \<Longrightarrow> main_convHeader h ''n64'' = Inr (reverse_groups4 h)"
  by (simp add: main_convHeader_def main_n64_loop_eq)

lemma main_convHeader_v64:
  "length h = 0x40 \<Longrightarrow> main_convHeader h ''v64'' = Inr (reverse_groups2 h)"
  by (simp add: main_convHeader_def main_v64_loop_eq)

text \<open>
  Claim C5. For every 64-byte header, normalisation in mode \<open>z64\<close> (native, big-endian)
  returns the header unchanged, in mode \<open>n64\<close> (word-swapped) it reverses every group of
  four bytes, in mode \<open>v64\<close> (halfword-swapped) it reverses every group of two bytes, and
  applying the transformation of one mode twice gives back the original 64 bytes. This
  holds for \<open>convertHeaderEndianness\<close> and for the inline code of \<open>main.go\<close>, and no
  slice or index leaves the header.
\<close>

theorem header_normalisation_involution:
  assumes "length h = 0x40"
  shows "convertHeaderEndianness h ''z64'' = Inr h
       \<and> convertHeaderEndianness h ''n64'' = Inr (reverse_groups4 h)
       \<and> convertHeaderEndianness h ''v64'' = Inr (reverse_groups2 h)
       \<and> twice (\<lambda>x. convertHeaderEndianness x ''z64'') h = Inr h
       \<and> twice (\<lambda>x. convertHeaderEndianness x ''n64'') h = Inr h
       \<and> twice (\<lambda>x. convertHeaderEndianness x ''v64'') h = Inr h
       \<and> main_convHeader h ''z64'' = Inr h
       \<and> main_convHeader h ''n64'' = Inr (reverse_groups4 h)
       \<and> main_convHeader h ''v64'' = Inr (reverse_groups2 h)
       \<and> twice (\<lambda>x. main_convHeader x ''z64'') h = Inr h
       \<and> twice (\<lambda>x. main_convHeader x ''n64'') h = Inr h
       \<and> twice (\<lambda>x. main_convHeader x ''v64'') h = Inr h"
proof -
  have d4: "4 dvd length h" and d2: "2 dvd length h"
    using assms by simp_all
  show ?thesis
    using assms d4 d2
    by (simp add: twice_def convertHeaderEndianness_z64 convertHeaderEndianness_n64
        convertHeaderEndianness_v64 main_convHeader_z64 main_convHeader_n64
        main_convHeader_v64 reverse_groups4_twice reverse_groups2_twice)
qed

theorem header_normalisation_involution_witness:
  "length ([0x40, 0x12, 0x37, 0x80] @ replicate 60 (0x2A :: byte)) = 0x40
   \<and> twice (\<lambda>x. convertHeaderEndianness x ''n64'') ([0x40, 0x12, 0x37, 0x80] @ replicate 60 0x2A)
       = Inr ([0x40, 0x12, 0x37, 0x80] @ replicate 60 0x2A)
   \<and> twice (\<lambda>x. main_convHeader x ''v64'') ([0x40, 0x12, 0x37, 0x80] @ replicate 60 0x2A)
       = Inr ([0x40, 0x12, 0x37, 0x80] @ replicate 60 0x2A)"
  using header_normalisation_involution [of "[0x40, 0x12, 0x37, 0x80] @ replicate 60 0x2A"]
  by simp

section \<open>Byte-swap conversion of save files\<close>

lemma transform_save_kinds:
  "transform_save fs ''.sra'' src dst = convertSaveFile fs src dst"
  "transform_save fs ''.fla'' src dst = convertSaveFile fs src dst"
  "transform_save fs ''.mpk'' src dst = copyFile fs src dst 131072"
  "transform_save fs ''.pak'' src dst = copyFile fs src dst 131072"
  "transform_save fs ''.eep'' src dst = copyFile fs src dst 0"
  "transform_save fs ''.eeprom'' src dst = copyFile fs src dst 0"
  "transform_save fs ''.flash'' src dst = copyFile fs src dst 0"
  "transform_save fs ''.ram'' src dst = copyFile fs src dst 0"
  by (simp_all add: transform_save_def ConversionExtensions_def fullmempakSize_def)

lemma complete_groups4_aligned: "length xs mod 4 = 0 \<Longrightarrow> complete_groups4 xs = xs"
  by (simp add: complete_groups4_def)

lemma complete_groups4_short: "length xs < 4 \<Longrightarrow> complete_groups4 xs = []"
  by (simp add: complete_groups4_def)

lemma complete_groups4_step:
  assumes "4 \<le> length xs"
  shows "complete_groups4 xs = take 4 xs @ complete_groups4 (drop 4 xs)"
proof -
  have m: "(length xs - 4) mod 4 = length xs mod 4"
    using le_mod_geq [OF assms] by simp
  have "length xs mod 4 < 4" by simp
  then have le: "length xs mod 4 \<le> length xs - 4"
    using assms m by (metis mod_less_eq_dividend)
  have "length xs - length xs mod 4 = 4 + (length xs - 4 - length xs mod 4)"
    using assms le by simp
  then have "take (length xs - length xs mod 4) xs
      = take 4 xs @ take (length xs - 4 - length xs mod 4) (drop 4 xs)"
    by (simp only: take_add)
  then show ?thesis
    by (simp add: complete_groups4_def m)
qed

lemma take_4_explicit:
  assumes "4 \<le> length xs"
  shows "take 4 xs = [xs ! 0, xs ! 1, xs ! 2, xs ! 3]"
  using assms
  by (cases xs; cases "tl xs"; cases "tl (tl xs)"; cases "tl (tl (tl xs))") auto

lemma reverse_groups4_step:
  assumes "4 \<le> length xs"
  shows "reverse_groups4 xs = [xs ! 3, xs ! 2, xs ! 1, xs ! 0] @ reverse_groups4 (drop 4 xs)"
  using assms
  by (cases xs; cases "tl xs"; cases "tl (tl xs)"; cases "tl (tl (tl xs))") auto

lemma convert_loop_eq:
  "convert_loop inFile outFile =
     (outFile @ reverse_groups4 (complete_groups4 inFile),
      if length inFile mod 4 = 0 then None else Some (ErrReadingSaveFile ErrUnexpectedEOF))"
proof (induction inFile outFile rule: convert_loop.induct)
  case (1 inFile outFile)
  show ?case
  proof (cases "4 \<le> length inFile")
    case True
    then have rd: "io_ReadFull inFile 4 = (take 4 inFile, None)"
      by (simp add: io_ReadFull_def)
    have tk: "take 4 inFile = [inFile ! 0, inFile ! 1, inFile ! 2, inFile ! 3]"
      by (rule take_4_explicit [OF True])
    have sw: "LittleEndian_PutUint32 (BigEndian_Uint32 (take 4 inFile))
                = [inFile ! 3, inFile ! 2, inFile ! 1, inFile ! 0]"
      by (simp add: tk swap32_le_be)
    have m: "(length inFile - 4) mod 4 = length inFile mod 4"
      using le_mod_geq [OF True] by simp
    have ih: "convert_loop (drop 4 inFile) (outFile @ [inFile ! 3, inFile ! 2, inFile ! 1, inFile ! 0])
        = ((outFile @ [inFile ! 3, inFile ! 2, inFile ! 1, inFile ! 0])
             @ reverse_groups4 (complete_groups4 (drop 4 inFile)),
           if length inFile mod 4 = 0 then None else Some (ErrReadingSaveFile ErrUnexpectedEOF))"
    proof -
      have l4: "length (take 4 inFile) = 4" using True by simp
      have "convert_loop (drop (length (take 4 inFile)) inFile)
              (outFile @ LittleEndian_PutUint32 (BigEndian_Uint32 (take 4 inFile)))
          = ((outFile @ LittleEndian_PutUint32 (BigEndian_Uint32 (take 4 inFile)))
               @ reverse_groups4 (complete_groups4 (drop (length (take 4 inFile)) inFile)),
             if length (drop (length (take 4 inFile)) inFile) mod 4 = 0 then None
             else Some (ErrReadingSaveFile ErrUnexpectedEOF))"
        using True by (intro "1.IH" [of "take 4 inFile"]) (simp_all add: rd)
      then show ?thesis
        by (simp only: l4 sw length_drop m)
    qed
    have cg: "reverse_groups4 (complete_groups4 inFile)
        = [inFile ! 3, inFile ! 2, inFile ! 1, inFile ! 0]
            @ reverse_groups4 (complete_groups4 (drop 4 inFile))"
      using True
      by (simp add: complete_groups4_step tk)
    have step: "convert_loop inFile outFile
        = convert_loop (drop 4 inFile) (outFile @ [inFile ! 3, inFile ! 2, inFile ! 1, inFile ! 0])"
      using True by (subst convert_loop.simps) (simp add: rd sw)
    show ?thesis
      unfolding step ih cg by simp
  next
    case False
    then have sh: "complete_groups4 inFile = []"
      by (simp add: complete_groups4_short)
    show ?thesis
    proof (cases "inFile = []")
      case True
      then show ?thesis
        by (subst convert_loop.simps) (simp add: io_ReadFull_def complete_groups4_def)
    next
      case ne: False
      with False have "length inFile mod 4 \<noteq> 0" by (cases inFile) auto
      then show ?thesis
        using False ne
        by (subst convert_loop.simps) (simp add: io_ReadFull_def sh)
    qed
  qed
qed

lemma main_convert_loop_eq:
  "main_convert_loop inFile outFile =
     (outFile @ reverse_groups4 (complete_groups4 inFile),
      if length inFile mod 4 = 0 then None else Some Main_ErrNotMultipleOf4)"
proof (induction inFile outFile rule: main_convert_loop.induct)
  case (1 inFile outFile)
  show ?case
  proof (cases "4 \<le> length inFile")
    case True
    then have ne: "inFile \<noteq> []" by auto
    then have rd: "File_Read inFile 4 = (take 4 inFile, None)"
      by (simp add: File_Read_def)
    have tk: "take 4 inFile = [inFile ! 0, inFile ! 1, inFile ! 2, inFile ! 3]"
      by (rule take_4_explicit [OF True])
    have sw: "LittleEndian_PutUint32 (BigEndian_Uint32 (take 4 inFile))
                = [inFile ! 3, inFile ! 2, inFile ! 1, inFile ! 0]"
      by (simp add: tk swap32_le_be)
    have m: "(length inFile - 4) mod 4 = length inFile mod 4"
      using le_mod_geq [OF True] by simp
    have ih: "main_convert_loop (drop 4 inFile)
                (outFile @ [inFile ! 3, inFile ! 2, inFile ! 1, inFile ! 0])
        = ((outFile @ [inFile ! 3, inFile ! 2, inFile ! 1, inFile ! 0])
             @ reverse_groups4 (complete_groups4 (drop 4 inFile)),
           if length inFile mod 4 = 0 then None else Some Main_ErrNotMultipleOf4)"
    proof -
      have l4: "length (take 4 inFile) = 4" using True by simp
      have "main_convert_loop (drop (length (take 4 inFile)) inFile)
              (outFile @ LittleEndian_PutUint32 (BigEndian_Uint32 (take 4 inFile)))
          = ((outFile @ LittleEndian_PutUint32 (BigEndian_Uint32 (take 4 inFile)))
               @ reverse_groups4 (complete_groups4 (drop (length (take 4 inFile)) inFile)),
             if length (drop (length (take 4 inFile)) inFile) mod 4 = 0 then None
             else Some Main_ErrNotMultipleOf4)"
        using True by (intro "1.IH" [of "take 4 inFile"]) (simp_all add: rd)
      then show ?thesis
        by (simp only: l4 sw length_drop m)
    qed
    have cg: "reverse_groups4 (complete_groups4 inFile)
        = [inFile ! 3, inFile ! 2, inFile ! 1, inFile ! 0]
            @ reverse_groups4 (complete_groups4 (drop 4 inFile))"
      using True
      by (simp add: complete_groups4_step tk)
    have step: "main_convert_loop inFile outFile
        = main_convert_loop (drop 4 inFile)
            (outFile @ [inFile ! 3, inFile ! 2, inFile ! 1, inFile ! 0])"
      using True by (subst main_convert_loop.simps) (simp add: rd sw)
    show ?thesis
      unfolding step ih cg by simp
  next
    case False
    then have sh: "complete_groups4 inFile = []"
      by (simp add: complete_groups4_short)
    show ?thesis
    proof (cases "inFile = []")
      case True
      then show ?thesis
        by (subst main_convert_loop.simps) (simp add: File_Read_def complete_groups4_def)
    next
      case ne: False
      with False have "length inFile mod 4 \<noteq> 0" by (cases inFile) auto
      then show ?thesis
        using False ne
        by (subst main_convert_loop.simps) (simp add: File_Read_def sh)
    qed
  qed
qed

lemma convertSaveFile_eq:
  assumes "fs src = Some payload" "src \<noteq> dst"
  shows "convertSaveFile fs src dst =
           (fs(dst \<mapsto> reverse_groups4 (complete_groups4 payload)),
            if length payload mod 4 = 0 then None
            else Some (ErrReadingSaveFile ErrUnexpectedEOF))"
  using assms by (simp add: convertSaveFile_def convert_loop_eq)

lemma main_convertSaveFile_eq:
  assumes "fs src = Some payload" "src \<noteq> dst"
  shows "main_convertSaveFile fs src dst =
           (fs(dst \<mapsto> reverse_groups4 (complete_groups4 payload)),
            if length payload mod 4 = 0 then None else Some Main_ErrNotMultipleOf4)"
  using assms by (simp add: main_convertSaveFile_def main_convert_loop_eq)

lemma example_store_simps:
  "example_store ''game.sra'' = Some [1, 2, 3, 4, 5, 6, 7, 8]"
  "example_store ''odd.sra'' = Some [1, 2, 3, 4, 5]"
  "example_store ''empty.sra'' = Some []"
  "example_store ''out.sra'' = None"
  "example_store ''new.sra'' = None"
  by (simp_all add: example_store_def)

lemma length_complete_groups4: "length (complete_groups4 xs) = 4 * (length xs div 4)"
proof -
  have "length xs - length xs mod 4 = 4 * (length xs div 4)"
    by (metis minus_mod_eq_mult_div)
  then show ?thesis by (simp add: complete_groups4_def)
qed

text \<open>
  Claim C6. For every save payload whose length is a multiple of 4, the byte-swap
  conversion succeeds and writes the payload with the byte order of each non-overlapping
  4-byte group reversed, and converting that output again gives back the original
  payload. This holds for both revisions of \<open>convertSaveFile\<close>; the source and the
  destination of each conversion are different files.
\<close>

theorem byte_swap_involution:
  assumes "fs a = Some payload" and "length payload mod 4 = 0" and "a \<noteq> b" and "b \<noteq> c"
  shows "snd (convertSaveFile fs a b) = None
       \<and> fst (convertSaveFile fs a b) b = Some (reverse_groups4 payload)
       \<and> snd (convertSaveFile (fst (convertSaveFile fs a b)) b c) = None
       \<and> fst (convertSaveFile (fst (convertSaveFile fs a b)) b c) c = Some payload
       \<and> snd (main_convertSaveFile fs a b) = None
       \<and> fst (main_convertSaveFile fs a b) b = Some (reverse_groups4 payload)
       \<and> snd (main_convertSaveFile (fst (main_convertSaveFile fs a b)) b c) = None
       \<and> fst (main_convertSaveFile (fst (main_convertSaveFile fs a b)) b c) c = Some payload"
proof -
  let ?fs1 = "fs(b \<mapsto> reverse_groups4 payload)"
  have cg: "complete_groups4 payload = payload"
    using assms(2) by (rule complete_groups4_aligned)
  have cg': "complete_groups4 (reverse_groups4 payload) = reverse_groups4 payload"
    using assms(2) by (intro complete_groups4_aligned) simp
  have one: "convertSaveFile fs a b = (?fs1, None)"
    using convertSaveFile_eq [of fs a payload b] assms by (simp add: cg)
  have one': "main_convertSaveFile fs a b = (?fs1, None)"
    using main_convertSaveFile_eq [of fs a payload b] assms by (simp add: cg)
  have src: "?fs1 b = Some (reverse_groups4 payload)" by simp
  have two: "convertSaveFile ?fs1 b c = (?fs1(c \<mapsto> payload), None)"
    using convertSaveFile_eq [of ?fs1 b "reverse_groups4 payload" c] assms(2,4)
    by (simp add: cg' reverse_groups4_twice)
  have two': "main_convertSaveFile ?fs1 b c = (?fs1(c \<mapsto> payload), None)"
    using main_convertSaveFile_eq [of ?fs1 b "reverse_groups4 payload" c] assms(2,4)
    by (simp add: cg' reverse_groups4_twice)
  show ?thesis
    by (simp add: one one' two two')
qed

theorem byte_swap_involution_witness:
  "example_store ''game.sra'' = Some [1, 2, 3, 4, 5, 6, 7, 8]
   \<and> length [1, 2, 3, 4, 5, 6, 7, 8 :: byte] mod 4 = 0
   \<and> fst (convertSaveFile example_store ''game.sra'' ''out.sra'') ''out.sra''
       = Some [4, 3, 2, 1, 8, 7, 6, 5]
   \<and> fst (convertSaveFile (fst (convertSaveFile example_store ''game.sra'' ''out.sra''))
            ''out.sra'' ''back.sra'') ''back.sra''
       = Some [1, 2, 3, 4, 5, 6, 7, 8]"
  using byte_swap_involution [of example_store "''game.sra''" "[1, 2, 3, 4, 5, 6, 7, 8]"
      "''out.sra''" "''back.sra''"]
  by (simp add: example_store_simps)

text \<open>
  Claim C7. The byte-swap conversion returns an error exactly when the length of the
  payload is not a multiple of 4, and returns no error when it is. The later revision
  reports the incomplete last group as the read error wrapping \<open>io.ErrUnexpectedEOF\<close>
  (its check of the read size is never reached, since \<open>io.ReadFull\<close> returns an error on
  a short read); \<open>main.go\<close> reports that the size is not a multiple of 4 bytes.
\<close>

theorem misaligned_save_fails:
  assumes "fs src = Some payload" and "src \<noteq> dst"
  shows "snd (convertSaveFile fs src dst)
           = (if length payload mod 4 = 0 then None
              else Some (ErrReadingSaveFile ErrUnexpectedEOF))
       \<and> snd (main_convertSaveFile fs src dst)
           = (if length payload mod 4 = 0 then None else Some Main_ErrNotMultipleOf4)"
  using assms convertSaveFile_eq [of fs src payload dst]
    main_convertSaveFile_eq [of fs src payload dst]
  by simp

theorem misaligned_save_fails_witness:
  "example_store ''odd.sra'' = Some [1, 2, 3, 4, 5]
   \<and> snd (convertSaveFile example_store ''odd.sra'' ''out.sra'')
       = Some (ErrReadingSaveFile ErrUnexpectedEOF)
   \<and> snd (main_convertSaveFile example_store ''odd.sra'' ''out.sra'')
       = Some Main_ErrNotMultipleOf4
   \<and> snd (convertSaveFile example_store ''game.sra'' ''out.sra'') = None
   \<and> snd (main_convertSaveFile example_store ''game.sra'' ''out.sra'') = None"
  using misaligned_save_fails [of example_store "''odd.sra''" "[1, 2, 3, 4, 5]" "''out.sra''"]
    misaligned_save_fails [of example_store "''game.sra''" "[1, 2, 3, 4, 5, 6, 7, 8]" "''out.sra''"]
  by (simp add: example_store_simps)

text \<open>
  Claim C10. For a source file of length zero, the byte-swap conversion of either
  revision returns no error and leaves a destination file of length zero: the first
  read meets the end of the file, and the loop ends normally. \<open>main\<close> takes this path for
  the extensions \<open>.sra\<close> and \<open>.fla\<close>.
\<close>

theorem empty_byte_swap_succeeds:
  assumes "fs src = Some []"
  shows "convertSaveFile fs src dst = (fs(dst \<mapsto> []), None)
       \<and> main_convertSaveFile fs src dst = (fs(dst \<mapsto> []), None)
       \<and> transform_save fs ''.sra'' src dst = convertSaveFile fs src dst
       \<and> transform_save fs ''.fla'' src dst = convertSaveFile fs src dst"
proof -
  have inp: "(case (fs(dst \<mapsto> [])) src of None \<Rightarrow> [] | Some bytes \<Rightarrow> bytes) = []"
    using assms by simp
  have l: "convert_loop [] [] = ([], None)" "main_convert_loop [] [] = ([], None)"
    by (simp_all add: convert_loop_eq main_convert_loop_eq complete_groups4_def)
  show ?thesis
    using assms
    by (simp add: transform_save_kinds convertSaveFile_def main_convertSaveFile_def inp l
        del: fun_upd_apply)
qed

theorem empty_byte_swap_succeeds_witness:
  "example_store ''empty.sra'' = Some []
   \<and> snd (convertSaveFile example_store ''empty.sra'' ''out.sra'') = None
   \<and> fst (convertSaveFile example_store ''empty.sra'' ''out.sra'') ''out.sra'' = Some []
   \<and> snd (main_convertSaveFile example_store ''empty.sra'' ''out.sra'') = None
   \<and> fst (main_convertSaveFile example_store ''empty.sra'' ''out.sra'') ''out.sra'' = Some []"
  using empty_byte_swap_succeeds [of example_store "''empty.sra''" "''out.sra''"]
  by (simp add: example_store_simps)

text \<open>
  Claim C9, as stated, fails: converting a 5-byte save creates the destination, writes
  the first swapped group, and then returns the error; the 4-byte destination file stays.
\<close>

theorem partial_output_counterexample:
  "example_store ''out.sra'' = None
   \<and> snd (convertSaveFile example_store ''odd.sra'' ''out.sra'')
       = Some (ErrReadingSaveFile ErrUnexpectedEOF)
   \<and> fst (convertSaveFile example_store ''odd.sra'' ''out.sra'') ''out.sra''
       = Some [4, 3, 2, 1]"
  using convertSaveFile_eq [of example_store "''odd.sra''" "[1, 2, 3, 4, 5]" "''out.sra''"]
  by (simp add: example_store_simps complete_groups4_def)

text \<open>
  Claim C9, amended. A failing save transformation does not remove or roll back the
  destination file it has created. A byte-swap conversion that fails on a payload whose
  length is not a multiple of 4 leaves the destination holding the swapped whole 4-byte
  groups of the payload (\<open>4 * (n div 4)\<close> bytes); a size-normalising copy that fails on an
  empty source leaves an empty destination file. A transformation that fails to open its
  source returns before the destination is created and leaves the store as it was. The
  source and the destination are different paths.
\<close>

theorem failure_leaves_destination:
  assumes "src \<noteq> dst"
  shows "(fs src = Some payload \<and> length payload mod 4 \<noteq> 0 \<longrightarrow>
            snd (convertSaveFile fs src dst) = Some (ErrReadingSaveFile ErrUnexpectedEOF)
          \<and> fst (convertSaveFile fs src dst) dst
              = Some (reverse_groups4 (complete_groups4 payload))
          \<and> snd (main_convertSaveFile fs src dst) = Some Main_ErrNotMultipleOf4
          \<and> fst (main_convertSaveFile fs src dst) dst
              = Some (reverse_groups4 (complete_groups4 payload))
          \<and> length (reverse_groups4 (complete_groups4 payload)) = 4 * (length payload div 4))
       \<and> (fs src = Some [] \<and> targetSize \<noteq> 0 \<longrightarrow>
            copyFile fs src dst targetSize = (fs(dst \<mapsto> []), Some ErrSourceFileEmpty))
       \<and> (fs src = None \<longrightarrow>
            convertSaveFile fs src dst = (fs, Some (ErrOpeningSaveFile ErrNotExist))
          \<and> main_convertSaveFile fs src dst = (fs, Some (ErrOpeningSaveFile ErrNotExist))
          \<and> copyFile fs src dst targetSize = (fs, Some (ErrOpeningSourceFile ErrNotExist)))"
proof -
  have a: "fs src = Some payload \<and> length payload mod 4 \<noteq> 0 \<longrightarrow>
            snd (convertSaveFile fs src dst) = Some (ErrReadingSaveFile ErrUnexpectedEOF)
          \<and> fst (convertSaveFile fs src dst) dst
              = Some (reverse_groups4 (complete_groups4 payload))
          \<and> snd (main_convertSaveFile fs src dst) = Some Main_ErrNotMultipleOf4
          \<and> fst (main_convertSaveFile fs src dst) dst
              = Some (reverse_groups4 (complete_groups4 payload))
          \<and> length (reverse_groups4 (complete_groups4 payload)) = 4 * (length payload div 4)"
    using assms
    by (auto simp: convertSaveFile_eq main_convertSaveFile_eq length_complete_groups4)
  have b: "fs src = Some [] \<and> targetSize \<noteq> 0 \<longrightarrow>
            copyFile fs src dst targetSize = (fs(dst \<mapsto> []), Some ErrSourceFileEmpty)"
    using assms by (simp add: copyFile_def)
  have c: "fs src = None \<longrightarrow>
            convertSaveFile fs src dst = (fs, Some (ErrOpeningSaveFile ErrNotExist))
          \<and> main_convertSaveFile fs src dst = (fs, Some (ErrOpeningSaveFile ErrNotExist))
          \<and> copyFile fs src dst targetSize = (fs, Some (ErrOpeningSourceFile ErrNotExist))"
    by (simp add: convertSaveFile_def main_convertSaveFile_def copyFile_def)
  from a b c show ?thesis by blast
qed

theorem failure_leaves_destination_witness:
  "''odd.sra'' \<noteq> ''out.sra''
   \<and> example_store ''odd.sra'' = Some [1, 2, 3, 4, 5]
   \<and> length [1, 2, 3, 4, 5 :: byte] mod 4 \<noteq> 0
   \<and> snd (main_convertSaveFile example_store ''odd.sra'' ''out.sra'')
       = Some Main_ErrNotMultipleOf4
   \<and> fst (main_convertSaveFile example_store ''odd.sra'' ''out.sra'') ''out.sra''
       = Some [4, 3, 2, 1]
   \<and> example_store ''empty.sra'' = Some []
   \<and> snd (copyFile example_store ''empty.sra'' ''out.sra'' 131072) = Some ErrSourceFileEmpty
   \<and> fst (copyFile example_store ''empty.sra'' ''out.sra'' 131072) ''out.sra'' = Some []
   \<and> example_store ''out.sra'' = None
   \<and> fst (copyFile example_store ''out.sra'' ''new.sra'' 0) ''new.sra'' = None"
  using failure_leaves_destination [of "''odd.sra''" "''out.sra''" example_store
      "[1, 2, 3, 4, 5]" 131072]
    failure_leaves_destination [of "''empty.sra''" "''out.sra''" example_store "[]" 131072]
    failure_leaves_destination [of "''out.sra''" "''new.sra''" example_store "[]" 0]
  by (simp add: example_store_simps complete_groups4_def)

section \<open>Title extraction\<close>

lemma allowed_small:
  assumes "allowed_rune r"
  shows "r < 0x80"
proof -
  from assms have b: "0 \<le> sint r" "sint r \<le> 0x7A"
    by (auto simp: allowed_rune_def)
  have "uint r = take_bit 32 (sint r)" by (simp add: uint_sint)
  also have "\<dots> = sint r" using b by (intro take_bit_int_eq_self) simp_all
  finally have "uint r < uint (0x80 :: rune)" using b by simp
  then show ?thesis by (simp add: word_less_def)
qed

lemma all_bytes: "list_all P (Enum.enum :: byte list) \<Longrightarrow> P b"
  by (simp add: list_all_iff enum_UNIV)

lemma ascii_facts: "list_all ascii_ok Enum.enum"
  by code_simp

lemma lead_facts: "list_all lead_ok Enum.enum"
  by code_simp

lemma cont_facts: "list_all cont_ok Enum.enum"
  by code_simp

lemma or_ge_left: "(c :: rune) \<le> a \<Longrightarrow> c \<le> a OR b"
  by (meson le_word_or2 order_trans)

lemma or_ge_right: "(c :: rune) \<le> b \<Longrightarrow> c \<le> a OR b"
  by (metis or_ge_left or.commute)

lemma RuneError_not_allowed: "\<not> allowed_rune RuneError"
  using allowed_small [of RuneError] by (auto simp: RuneError_def)

lemma big_not_allowed: "(0x80 :: rune) \<le> r \<Longrightarrow> \<not> allowed_rune r"
  using allowed_small [of r] by auto

lemma take_2_nth: "2 \<le> length s \<Longrightarrow> take 2 s = [s ! 0, s ! 1]"
  by (cases s; cases "tl s") auto

lemma take_3_nth: "3 \<le> length s \<Longrightarrow> take 3 s = [s ! 0, s ! 1, s ! 2]"
  by (cases s; cases "tl s"; cases "tl (tl s)") auto

lemma take_4_nth: "4 \<le> length s \<Longrightarrow> take 4 s = [s ! 0, s ! 1, s ! 2, s ! 3]"
  by (cases s; cases "tl s"; cases "tl (tl s)"; cases "tl (tl (tl s))") auto

lemma take_1_nth: "1 \<le> length s \<Longrightarrow> take (Suc 0) s = [s ! 0]"
  by (cases s) auto

lemma DecodeRune_high:
  assumes ne: "s \<noteq> []" and hi: "0x80 \<le> s ! 0"
  shows "\<not> allowed_rune (fst (DecodeRune s))
       \<and> 1 \<le> snd (DecodeRune s) \<and> snd (DecodeRune s) \<le> length s
       \<and> filter allowed_byte (take (snd (DecodeRune s)) s) = []"
proof -
  define s0 where "s0 = s ! 0"
  define x where "x = utf8_first s0"
  define sz where "sz = unat (x AND 7)"
  define acc where "acc = acceptRanges (unat (drop_bit 4 x))"
  have len1: "1 \<le> length s" using ne by (cases s) auto
  have a0: "\<not> allowed_byte s0" and xF0: "x \<noteq> 0xF0"
    using all_bytes [OF ascii_facts, of s0] hi by (auto simp: ascii_ok_def s0_def x_def)
  have err: "DecodeRune s = (RuneError, 1) \<Longrightarrow> ?thesis"
    using a0 len1 by (simp add: RuneError_not_allowed take_1_nth s0_def)
  have hb: "\<And>b :: byte. 0x80 \<le> b \<Longrightarrow> \<not> allowed_byte b"
    using all_bytes [OF ascii_facts] by (auto simp: ascii_ok_def)
  show ?thesis
  proof (cases "0xF0 \<le> x")
    case True
    then have "DecodeRune s = (RuneError, 1)"
      using ne xF0 by (simp add: DecodeRune_def Let_def s0_def x_def)
    then show ?thesis by (rule err)
  next
    case False
    then have lead: "sz = 2 \<or> sz = 3 \<or> sz = 4" "0x80 \<le> fst acc" "snd acc \<le> 0xBF"
      "sz = 2 \<longrightarrow> (0x80 :: rune) \<le> push_bit 6 (ucast (s0 AND 0x1F))"
      "sz = 3 \<longrightarrow> (0x80 :: rune) \<le> push_bit 12 (ucast (s0 AND 0x0F)) \<or> 0xA0 \<le> fst acc"
      "sz = 4 \<longrightarrow> (0x80 :: rune) \<le> push_bit 18 (ucast (s0 AND 0x07)) \<or> 0x90 \<le> fst acc"
      using all_bytes [OF lead_facts, of s0]
      by (simp_all add: lead_ok_def x_def sz_def acc_def not_le)
    show ?thesis
    proof (cases "length s < sz")
      case True
      then have "DecodeRune s = (RuneError, 1)"
        using ne False by (simp add: DecodeRune_def Let_def s0_def x_def sz_def)
      then show ?thesis by (rule err)
    next
      case lenok: False
      define s1 where "s1 = s ! 1"
      show ?thesis
      proof (cases "s1 < fst acc \<or> snd acc < s1")
        case True
        then have "DecodeRune s = (RuneError, 1)"
          using ne False lenok
          by (simp add: DecodeRune_def Let_def s0_def x_def sz_def acc_def s1_def)
        then show ?thesis by (rule err)
      next
        case s1ok: False
        then have s1hi: "0x80 \<le> s1" "s1 \<le> 0xBF"
          using lead(2,3) by auto
        have c1: "fst acc \<le> s1" using s1ok by auto
        show ?thesis
        proof (cases "sz \<le> 2")
          case True
          then have sz2: "sz = 2" using lead(1) by auto
          have dr: "DecodeRune s = (push_bit 6 (ucast (s0 AND 0x1F)) OR ucast (s1 AND 0x3F), 2)"
            using ne False lenok s1ok True
            by (simp add: DecodeRune_def Let_def s0_def x_def sz_def acc_def s1_def)
          have "(0x80 :: rune) \<le> push_bit 6 (ucast (s0 AND 0x1F)) OR ucast (s1 AND 0x3F)"
            using lead(4) sz2 by (intro or_ge_left) simp
          then show ?thesis
            using dr lenok sz2 a0 hb [OF s1hi(1)]
            by (simp add: big_not_allowed take_2_nth s0_def s1_def)
        next
          case szgt2: False
          define s2 where "s2 = s ! 2"
          show ?thesis
          proof (cases "s2 < 0x80 \<or> 0xBF < s2")
            case True
            then have "DecodeRune s = (RuneError, 1)"
              using ne False lenok s1ok szgt2
              by (simp add: DecodeRune_def Let_def s0_def x_def sz_def acc_def s1_def s2_def)
            then show ?thesis by (rule err)
          next
            case s2ok: False
            then have s2hi: "0x80 \<le> s2" by auto
            show ?thesis
            proof (cases "sz \<le> 3")
              case True
              then have sz3: "sz = 3" using lead(1) szgt2 by auto
              have dr: "DecodeRune s =
                  (push_bit 12 (ucast (s0 AND 0x0F)) OR push_bit 6 (ucast (s1 AND 0x3F))
                     OR ucast (s2 AND 0x3F), 3)"
                using ne False lenok s1ok szgt2 s2ok True
                by (simp add: DecodeRune_def Let_def s0_def x_def sz_def acc_def s1_def s2_def)
              have m: "0xA0 \<le> fst acc \<Longrightarrow> (0x80 :: rune) \<le> push_bit 6 (ucast (s1 AND 0x3F))"
                using all_bytes [OF cont_facts, of s1] c1 s1hi by (auto simp: cont_ok_def)
              have "(0x80 :: rune) \<le> push_bit 12 (ucast (s0 AND 0x0F))
                      OR push_bit 6 (ucast (s1 AND 0x3F)) OR ucast (s2 AND 0x3F)"
                using lead(5) sz3 m by (auto intro: or_ge_left or_ge_right)
              then show ?thesis
                using dr lenok sz3 a0 hb [OF s1hi(1)] hb [OF s2hi]
                by (simp add: big_not_allowed take_3_nth s0_def s1_def s2_def)
            next
              case szgt3: False
              then have sz4: "sz = 4" using lead(1) szgt2 by auto
              define s3 where "s3 = s ! 3"
              show ?thesis
              proof (cases "s3 < 0x80 \<or> 0xBF < s3")
                case True
                then have "DecodeRune s = (RuneError, 1)"
                  using ne False lenok s1ok szgt2 s2ok szgt3
                  by (simp add: DecodeRune_def Let_def s0_def x_def sz_def acc_def s1_def
                      s2_def s3_def)
                then show ?thesis by (rule err)
              next
                case s3ok: False
                then have s3hi: "0x80 \<le> s3" by auto
                have dr: "DecodeRune s =
                    (push_bit 18 (ucast (s0 AND 0x07)) OR push_bit 12 (ucast (s1 AND 0x3F))
                       OR push_bit 6 (ucast (s2 AND 0x3F)) OR ucast (s3 AND 0x3F), 4)"
                  using ne False lenok s1ok szgt2 s2ok szgt3 s3ok
                  by (simp add: DecodeRune_def Let_def s0_def x_def sz_def acc_def s1_def
                      s2_def s3_def)
                have m: "0x90 \<le> fst acc \<Longrightarrow> (0x80 :: rune) \<le> push_bit 12 (ucast (s1 AND 0x3F))"
                  using all_bytes [OF cont_facts, of s1] c1 s1hi by (auto simp: cont_ok_def)
                have "(0x80 :: rune) \<le> push_bit 18 (ucast (s0 AND 0x07))
                        OR push_bit 12 (ucast (s1 AND 0x3F))
                        OR push_bit 6 (ucast (s2 AND 0x3F)) OR ucast (s3 AND 0x3F)"
                  using lead(6) sz4 m by (auto intro: or_ge_left or_ge_right)
                then show ?thesis
                  using dr lenok sz4 a0 hb [OF s1hi(1)] hb [OF s2hi] hb [OF s3hi]
                  by (simp add: big_not_allowed take_4_nth s0_def s1_def s2_def s3_def)
              qed
            qed
          qed
        qed
      qed
    qed
  qed
qed

lemma DecodeRune_ascii:
  assumes "s \<noteq> []" "s ! 0 < 0x80"
  shows "DecodeRune s = (ucast (s ! 0), 1)"
  using assms all_bytes [OF ascii_facts, of "s ! 0"]
  by (cases s) (simp_all add: DecodeRune_def Let_def ascii_ok_def)

lemma AppendRune_ascii:
  assumes "b < 0x80"
  shows "AppendRune p (ucast (b :: byte)) = p @ [b]"
  using assms all_bytes [OF ascii_facts, of b]
  by (simp add: AppendRune_def ascii_ok_def)

lemma clean_loop_eq:
  "foldl AppendRune acc (filter allowed_rune (range_runes s)) = acc @ filter allowed_byte s"
proof (induction s arbitrary: acc rule: range_runes.induct)
  case (1 s)
  show ?case
  proof (cases "s = []")
    case True
    then show ?thesis by (subst range_runes.simps) simp
  next
    case ne: False
    define n where "n = snd (DecodeRune s)"
    have ih: "\<And>acc. foldl AppendRune acc (filter allowed_rune (range_runes (drop n s)))
                = acc @ filter allowed_byte (drop n s)"
      using "1.IH" [OF ne] by (simp add: n_def)
    have unfold: "range_runes s = fst (DecodeRune s) # range_runes (drop n s)"
      using ne by (subst range_runes.simps) (simp add: n_def)
    have split: "filter allowed_byte s
                   = filter allowed_byte (take n s) @ filter allowed_byte (drop n s)"
      by (metis append_take_drop_id filter_append)
    show ?thesis
    proof (cases "s ! 0 < 0x80")
      case True
      have dr: "DecodeRune s = (ucast (s ! 0), 1)"
        by (rule DecodeRune_ascii [OF ne True])
      then have n1: "n = 1" by (simp add: n_def)
      have al: "allowed_rune (ucast (s ! 0)) = allowed_byte (s ! 0)"
        using all_bytes [OF ascii_facts, of "s ! 0"] True by (simp add: ascii_ok_def)
      have tk: "take n s = [s ! 0]"
        using ne n1 by (cases s) auto
      show ?thesis
        using ih [of "acc @ [s ! 0]"] ih [of acc]
        by (simp add: unfold dr al split tk AppendRune_ascii [OF True])
    next
      case False
      then have hi: "0x80 \<le> s ! 0" by simp
      from DecodeRune_high [OF ne hi]
      have na: "\<not> allowed_rune (fst (DecodeRune s))"
        and em: "filter allowed_byte (take n s) = []"
        by (simp_all add: n_def)
      show ?thesis
        using ih [of acc] by (simp add: unfold na split em)
    qed
  qed
qed

lemma clean_runes_eq: "clean_runes title = filter allowed_byte title"
  by (simp add: clean_runes_def clean_loop_eq)

lemma TrimRight_space_decomp:
  "s = TrimRight_space s @ replicate (length s - length (TrimRight_space s)) 0x20"
proof -
  have "rev s = takeWhile (\<lambda>b. b = 0x20) (rev s) @ dropWhile (\<lambda>b. b = 0x20) (rev s)"
    by simp
  moreover have "takeWhile (\<lambda>b. b = 0x20) (rev s)
      = replicate (length (takeWhile (\<lambda>b. b = 0x20) (rev s))) (0x20 :: byte)"
    by (rule replicate_length_same [symmetric]) (auto dest: set_takeWhileD)
  moreover have "length (takeWhile (\<lambda>b. b = 0x20) (rev s))
      = length s - length (TrimRight_space s)"
    by (metis (no_types, lifting) TrimRight_space_def add_diff_cancel_right' length_append length_rev
        takeWhile_dropWhile_id)
  ultimately have "rev s = replicate (length s - length (TrimRight_space s)) 0x20
      @ dropWhile (\<lambda>b. b = 0x20) (rev s)"
    by metis
  then have "rev (rev s) = rev (replicate (length s - length (TrimRight_space s)) 0x20
      @ dropWhile (\<lambda>b. b = 0x20) (rev s))"
    by simp
  then show ?thesis
    by (simp add: TrimRight_space_def)
qed

lemma TrimRight_space_last:
  "TrimRight_space s = [] \<or> last (TrimRight_space s) \<noteq> 0x20"
proof (cases "dropWhile (\<lambda>b. b = 0x20) (rev s)")
  case Nil
  then show ?thesis by (simp add: TrimRight_space_def)
next
  case (Cons a as)
  then have "a \<noteq> 0x20"
    by (metis (mono_tags, lifting) hd_dropWhile list.distinct(1) list.sel(1))
  then show ?thesis
    using Cons by (simp add: TrimRight_space_def)
qed

lemma TrimRight_space_replicate:
  "t = [] \<or> last t \<noteq> 0x20 \<Longrightarrow> TrimRight_space (t @ replicate k 0x20) = t"
  by (cases t rule: rev_cases) (auto simp: TrimRight_space_def dropWhile_append3)

lemma ex_eval: "go_string (filter allowed_byte (go_bytes ''SUPER GAME!!'')) = ''SUPER GAME''"
  by code_simp

lemma ex_last: "last (go_bytes ''SUPER GAME!!'') \<noteq> 0x20"
  by code_simp

text \<open>
  Claim C3. For every normalised 64-byte header, the clean title is taken from the bytes
  \<open>0x20\<close> to \<open>0x33\<close>: the trailing bytes \<open>0x20\<close> are stripped (the field is the stripped
  part followed by spaces only, and the stripped part does not end in a space), and of
  what is left exactly the bytes in \<open>A-Z\<close>, \<open>a-z\<close>, \<open>0-9\<close> and the space are kept, in
  their order, with nothing put in the place of the others. The loop over the runes of
  the title never fails; a field of spaces gives the empty title, and the field
  \<open>SUPER GAME!!\<close> padded with spaces gives \<open>SUPER GAME\<close>.
\<close>

theorem clean_title_extraction:
  assumes "length h = 0x40"
  shows "extractCleanTitle h
           = Inr (go_string (filter allowed_byte (TrimRight_space (take 20 (drop 0x20 h)))))
       \<and> take 20 (drop 0x20 h)
           = TrimRight_space (take 20 (drop 0x20 h))
             @ replicate (20 - length (TrimRight_space (take 20 (drop 0x20 h)))) 0x20
       \<and> (TrimRight_space (take 20 (drop 0x20 h)) = []
            \<or> last (TrimRight_space (take 20 (drop 0x20 h))) \<noteq> 0x20)
       \<and> (take 20 (drop 0x20 h) = replicate 20 0x20 \<longrightarrow> extractCleanTitle h = Inr [])
       \<and> (take 20 (drop 0x20 h) = go_bytes ''SUPER GAME!!'' @ replicate 8 0x20
            \<longrightarrow> extractCleanTitle h = Inr ''SUPER GAME'')"
proof -
  let ?f = "take 20 (drop 0x20 h)"
  have len: "length ?f = 20" using assms by simp
  have e: "extractCleanTitle h = Inr (go_string (filter allowed_byte (TrimRight_space ?f)))"
    using assms by (simp add: extractCleanTitle_def clean_runes_eq)
  have d: "?f = TrimRight_space ?f @ replicate (20 - length (TrimRight_space ?f)) 0x20"
    using TrimRight_space_decomp [of ?f] len by simp
  have l: "TrimRight_space ?f = [] \<or> last (TrimRight_space ?f) \<noteq> 0x20"
    by (rule TrimRight_space_last)
  have z: "?f = replicate 20 0x20 \<longrightarrow> extractCleanTitle h = Inr []"
    using TrimRight_space_replicate [of "[]" 20] by (simp add: e go_string_def)
  have x: "?f = go_bytes ''SUPER GAME!!'' @ replicate 8 0x20
             \<longrightarrow> extractCleanTitle h = Inr ''SUPER GAME''"
    using TrimRight_space_replicate [of "go_bytes ''SUPER GAME!!''" 8] ex_last
    by (simp add: e ex_eval)
  from e d l z x show ?thesis by blast
qed

theorem clean_title_extraction_witness:
  "length (replicate 0x20 (0 :: byte) @ go_bytes ''SUPER GAME!!'' @ replicate 8 0x20
            @ replicate 12 0) = 0x40
   \<and> extractCleanTitle (replicate 0x20 0 @ go_bytes ''SUPER GAME!!'' @ replicate 8 0x20
            @ replicate 12 0) = Inr ''SUPER GAME''
   \<and> length (replicate 0x40 (0x20 :: byte)) = 0x40
   \<and> extractCleanTitle (replicate 0x40 0x20) = Inr []"
proof -
  let ?a = "replicate 0x20 (0 :: byte) @ go_bytes ''SUPER GAME!!'' @ replicate 8 0x20
              @ replicate 12 0"
  let ?b = "replicate 0x40 (0x20 :: byte)"
  have la: "length ?a = 0x40" by (simp add: go_bytes_def)
  have fa: "take 20 (drop 0x20 ?a) = go_bytes ''SUPER GAME!!'' @ replicate 8 0x20"
    by (simp add: go_bytes_def)
  have lb: "length ?b = 0x40" by simp
  have fb: "take 20 (drop 0x20 ?b) = replicate 20 0x20" by simp
  have "extractCleanTitle ?a = Inr ''SUPER GAME''"
    using clean_title_extraction [OF la] fa by blast
  moreover have "extractCleanTitle ?b = Inr []"
    using clean_title_extraction [OF lb] fb by blast
  ultimately show ?thesis using la lb by blast
qed

section \<open>Byte-order detection\<close>

lemma detectRomFormat_cases:
  "detectRomFormat m =
     (if m = [0x80, 0x37, 0x12, 0x40] then Inr ''z64''
      else if m = [0x40, 0x12, 0x37, 0x80] then Inr ''n64''
      else if m = [0x37, 0x80, 0x40, 0x12] then Inr ''v64''
      else Inl (ErrUnsupportedROMFormat m))"
  by (simp add: detectRomFormat_def romFormats_def)

lemma detectRomFormat_in_miss:
  "\<forall>entry \<in> set order. snd entry \<noteq> m \<Longrightarrow>
   detectRomFormat_in order m = Inl (ErrUnsupportedROMFormat m)"
  by (induction order m rule: detectRomFormat_in.induct) auto

lemma detectRomFormat_in_hit:
  "(mode, m) \<in> set order \<Longrightarrow> \<forall>entry \<in> set order. snd entry = m \<longrightarrow> fst entry = mode \<Longrightarrow>
   detectRomFormat_in order m = Inr mode"
  by (induction order m rule: detectRomFormat_in.induct) auto

lemma detectRomFormat_any_order:
  assumes "set order = set romFormats"
  shows "detectRomFormat_in order m = detectRomFormat m"
proof -
  have s: "set order = {(''z64'', [0x80, 0x37, 0x12, 0x40]), (''n64'', [0x40, 0x12, 0x37, 0x80]),
                        (''v64'', [0x37, 0x80, 0x40, 0x12])}"
    using assms by (simp add: romFormats_def)
  consider (z) "m = [0x80, 0x37, 0x12, 0x40]" | (n) "m = [0x40, 0x12, 0x37, 0x80]"
    | (v) "m = [0x37, 0x80, 0x40, 0x12]"
    | (u) "m \<noteq> [0x80, 0x37, 0x12, 0x40]" "m \<noteq> [0x40, 0x12, 0x37, 0x80]"
          "m \<noteq> [0x37, 0x80, 0x40, 0x12]"
    by blast
  then show ?thesis
  proof cases
    case z
    have "detectRomFormat_in order m = Inr ''z64''"
      by (rule detectRomFormat_in_hit) (simp_all add: s z)
    then show ?thesis by (simp add: detectRomFormat_cases z)
  next
    case n
    have "detectRomFormat_in order m = Inr ''n64''"
      by (rule detectRomFormat_in_hit) (simp_all add: s n)
    then show ?thesis by (simp add: detectRomFormat_cases n)
  next
    case v
    have "detectRomFormat_in order m = Inr ''v64''"
      by (rule detectRomFormat_in_hit) (simp_all add: s v)
    then show ?thesis by (simp add: detectRomFormat_cases v)
  next
    case u
    have "detectRomFormat_in order m = Inl (ErrUnsupportedROMFormat m)"
      by (rule detectRomFormat_in_miss) (use u in \<open>auto simp: s\<close>)
    then show ?thesis using u by (simp add: detectRomFormat_cases)
  qed
qed

lemma take_4_of_header:
  assumes "4 \<le> length h"
  shows "take 4 h = [h ! 0, h ! 1, h ! 2, h ! 3]"
  using assms
  by (cases h; cases "tl h"; cases "tl (tl h)"; cases "tl (tl (tl h))") auto

lemma main_detect_cases:
  assumes "4 \<le> length h"
  shows "main_detect h =
     (if take 4 h = [0x80, 0x37, 0x12, 0x40] then Inr ''z64''
      else if take 4 h = [0x40, 0x12, 0x37, 0x80] then Inr ''n64''
      else if take 4 h = [0x37, 0x80, 0x40, 0x12] then Inr ''v64''
      else Inl Main_ErrUnsupportedROMFormat)"
proof -
  have t: "take 4 h = [h ! 0, h ! 1, h ! 2, h ! 3]"
    by (rule take_4_of_header [OF assms])
  show ?thesis
    using assms unfolding main_detect_def Let_def t by simp
qed

lemma processRom_unsupported:
  assumes "fs romFile = Some content" and "0x40 \<le> length content"
    and "detectRomFormat (take 4 content) = Inl e"
  shows "processRom fs romFile = Inl e"
  using assms by (simp add: processRom_def io_ReadFull_def)

lemma main_processRom_unsupported:
  assumes "fs romFile = Some content" and "0x40 \<le> length content"
    and "main_detect (take 0x40 content) = Inl e"
  shows "main_processRom fs romFile = Inl e"
  using assms by (simp add: main_processRom_def io_ReadFull_def)

text \<open>
  Claim C4. For every 64-byte header, byte-order detection succeeds exactly when the
  first four bytes are one of the three magic sequences: \<open>80 37 12 40\<close> gives mode
  \<open>z64\<close> (native, big-endian), \<open>40 12 37 80\<close> gives \<open>n64\<close> (word-swapped) and
  \<open>37 80 40 12\<close> gives \<open>v64\<close> (halfword-swapped). Any other first four bytes give the
  unsupported-format error, and \<open>processRom\<close> then returns that error and neither a
  title nor a hash. The result does not depend on the order in which the map of formats
  is ranged over. The same holds for the \<open>switch\<close> of \<open>main.go\<close>.
\<close>

theorem byte_order_detection:
  assumes "length h = 0x40"
  shows "detectRomFormat (take 4 h) =
           (if take 4 h = [0x80, 0x37, 0x12, 0x40] then Inr ''z64''
            else if take 4 h = [0x40, 0x12, 0x37, 0x80] then Inr ''n64''
            else if take 4 h = [0x37, 0x80, 0x40, 0x12] then Inr ''v64''
            else Inl (ErrUnsupportedROMFormat (take 4 h)))
       \<and> (\<forall>order. set order = set romFormats \<longrightarrow>
             detectRomFormat_in order (take 4 h) = detectRomFormat (take 4 h))
       \<and> main_detect h =
           (if take 4 h = [0x80, 0x37, 0x12, 0x40] then Inr ''z64''
            else if take 4 h = [0x40, 0x12, 0x37, 0x80] then Inr ''n64''
            else if take 4 h = [0x37, 0x80, 0x40, 0x12] then Inr ''v64''
            else Inl Main_ErrUnsupportedROMFormat)
       \<and> (\<forall>fs romFile content.
             fs romFile = Some content \<and> take 0x40 content = h \<and> \<not> known_magic (take 4 h) \<longrightarrow>
               processRom fs romFile = Inl (ErrUnsupportedROMFormat (take 4 h))
             \<and> main_processRom fs romFile = Inl Main_ErrUnsupportedROMFormat)"
proof -
  have l4: "4 \<le> length h" using assms by simp
  have filelevel: "processRom fs romFile = Inl (ErrUnsupportedROMFormat (take 4 h))
            \<and> main_processRom fs romFile = Inl Main_ErrUnsupportedROMFormat"
    if f: "fs romFile = Some content" and t: "take 0x40 content = h"
      and k: "\<not> known_magic (take 4 h)" for fs romFile content
  proof -
    have len: "0x40 \<le> length content"
    proof (rule ccontr)
      assume "\<not> 0x40 \<le> length content"
      then have "length (take 0x40 content) < 0x40" by simp
      with t assms show False by simp
    qed
    have t4: "take 4 content = take 4 h"
      using t by (metis min.absorb3 numeral_less_iff semiring_norm(76,78) take_take)
    have "detectRomFormat (take 4 content) = Inl (ErrUnsupportedROMFormat (take 4 h))"
      using k by (simp add: t4 detectRomFormat_cases known_magic_def)
    then have a: "processRom fs romFile = Inl (ErrUnsupportedROMFormat (take 4 h))"
      using f len by (intro processRom_unsupported [of fs romFile content]) simp_all
    have "main_detect (take 0x40 content) = Inl Main_ErrUnsupportedROMFormat"
      using k l4 by (simp add: t main_detect_cases known_magic_def)
    then have "main_processRom fs romFile = Inl Main_ErrUnsupportedROMFormat"
      using f len by (intro main_processRom_unsupported [of fs romFile content]) simp_all
    with a show ?thesis by simp
  qed
  show ?thesis
    using detectRomFormat_cases [of "take 4 h"] detectRomFormat_any_order [of _ "take 4 h"]
      main_detect_cases [OF l4] filelevel
    by blast
qed

theorem byte_order_detection_witness:
  "length (replicate 0x40 (0 :: byte)) = 0x40
   \<and> detectRomFormat (take 4 (replicate 0x40 0)) = Inl (ErrUnsupportedROMFormat [0, 0, 0, 0])
   \<and> main_detect (replicate 0x40 0) = Inl Main_ErrUnsupportedROMFormat
   \<and> processRom zero_rom ''zero.z64'' = Inl (ErrUnsupportedROMFormat [0, 0, 0, 0])
   \<and> main_processRom zero_rom ''zero.z64'' = Inl Main_ErrUnsupportedROMFormat
   \<and> detectRomFormat_in (rev romFormats) (take 4 ([0x37, 0x80, 0x40, 0x12] @ replicate 60 0))
       = Inr ''v64''
   \<and> main_detect ([0x40, 0x12, 0x37, 0x80] @ replicate 60 0) = Inr ''n64''"
proof -
  let ?z = "replicate 0x40 (0 :: byte)"
  let ?v = "[0x37, 0x80, 0x40, 0x12] @ replicate 60 (0 :: byte)"
  let ?n = "[0x40, 0x12, 0x37, 0x80] @ replicate 60 (0 :: byte)"
  have lz: "length ?z = 0x40" and lv: "length ?v = 0x40" and ln: "length ?n = 0x40"
    by simp_all
  have tz: "take 4 ?z = [0, 0, 0, 0]"
    by (simp add: numeral_eq_Suc)
  have f: "zero_rom ''zero.z64'' = Some (replicate 0x1000 0)"
    by (simp add: zero_rom_def)
  have c: "take 0x40 (replicate 0x1000 (0 :: byte)) = ?z" by simp
  have k: "\<not> known_magic (take 4 ?z)"
    unfolding tz known_magic_def by simp
  have o: "set (rev romFormats) = set romFormats" by simp
  have tv: "take 4 ?v = [0x37, 0x80, 0x40, 0x12]" and tn: "take 4 ?n = [0x40, 0x12, 0x37, 0x80]"
    by simp_all
  from byte_order_detection [OF lz] f c k tz
  have 1: "detectRomFormat (take 4 ?z) = Inl (ErrUnsupportedROMFormat [0, 0, 0, 0])"
    and 2: "main_detect ?z = Inl Main_ErrUnsupportedROMFormat"
    and 3: "processRom zero_rom ''zero.z64'' = Inl (ErrUnsupportedROMFormat [0, 0, 0, 0])"
    and 4: "main_processRom zero_rom ''zero.z64'' = Inl Main_ErrUnsupportedROMFormat"
    by (simp_all add: known_magic_def)
  from byte_order_detection [OF lv] o tv
  have 5: "detectRomFormat_in (rev romFormats) (take 4 ?v) = Inr ''v64''"
    by simp
  from byte_order_detection [OF ln] tn
  have 6: "main_detect ?n = Inr ''n64''"
    by simp
  from lz 1 2 3 4 5 6 show ?thesis by blast
qed

section \<open>Copy with size normalisation\<close>

lemma sdiv_nonneg: "0 \<le> a \<Longrightarrow> 0 < b \<Longrightarrow> (a :: int) sdiv b = a div b"
  by (cases "a = 0") (simp_all add: signed_divide_int_def)

lemma smod_nonneg: "0 \<le> a \<Longrightarrow> 0 < b \<Longrightarrow> (a :: int) smod b = a mod b"
  by (cases "a = 0") (simp_all add: signed_modulo_int_def)

lemma write_copies_eq:
  "i \<le> numCopies \<Longrightarrow>
   write_copies i numCopies fileData out
     = out @ concat (replicate (nat (numCopies - i)) fileData)"
proof (induction i numCopies fileData out rule: write_copies.induct)
  case (1 i numCopies fileData out)
  show ?case
  proof (cases "i < numCopies")
    case True
    then have n: "nat (numCopies - i) = Suc (nat (numCopies - (i + 1)))"
      by simp
    have "write_copies i numCopies fileData out
            = write_copies (i + 1) numCopies fileData (out @ fileData)"
      using True by (subst write_copies.simps) simp
    also have "\<dots> = (out @ fileData) @ concat (replicate (nat (numCopies - (i + 1))) fileData)"
      using True by (intro "1.IH") simp_all
    finally show ?thesis
      by (simp only: n replicate_Suc concat.simps append_assoc)
  next
    case False
    with "1.prems" have "i = numCopies" by simp
    then show ?thesis by (subst write_copies.simps) simp
  qed
qed

lemma length_save_unit:
  assumes "payload \<noteq> []"
  shows "32768 \<le> length (save_unit payload)" and "length (save_unit payload) \<le> 131072"
  using assms by (auto simp: save_unit_def Let_def)

lemma length_tile:
  assumes "0 < length u"
  shows "length (tile target u) = target"
proof -
  have "length (concat (replicate (target div length u) u)) = target div length u * length u"
    by (induction "target div length u" arbitrary: target) (simp_all add: length_concat sum_list_replicate)
  then show ?thesis
    by (simp add: tile_def)
qed

lemma normalize_and_write_eq:
  assumes "payload \<noteq> []"
  shows "normalize_and_write payload 131072 = tile 131072 (save_unit payload)"
proof -
  define u where "u = save_unit payload"
  define s where "s = int (length u)"
  have lo: "32768 \<le> length u" and hi: "length u \<le> 131072"
    using length_save_unit [OF assms] by (simp_all add: u_def)
  have spos: "0 < s" and sle: "s \<le> 131072"
    using lo hi by (auto simp: s_def)
  have fileData: "(if (if int (length payload) > fullmempakSize then fullmempakSize
                       else int (length payload)) \<le> mempakSize
                   then (if int (length payload) > fullmempakSize
                         then take (nat fullmempakSize) payload else payload)
                        @ replicate (nat (mempakSize
                            - (if int (length payload) > fullmempakSize then fullmempakSize
                               else int (length payload)))) 0
                   else (if int (length payload) > fullmempakSize
                         then take (nat fullmempakSize) payload else payload)) = u"
    by (auto simp: u_def save_unit_def Let_def fullmempakSize_def mempakSize_def
        nat_diff_distrib min_def)
  have fileSize: "(if (if int (length payload) > fullmempakSize then fullmempakSize
                       else int (length payload)) \<le> mempakSize
                   then int (length u)
                   else (if int (length payload) > fullmempakSize then fullmempakSize
                         else int (length payload))) = s"
    by (auto simp: s_def u_def save_unit_def Let_def fullmempakSize_def mempakSize_def min_def)
  have nw: "normalize_and_write payload 131072 =
      (let numCopies = 1 + (if 131072 > s then (131072 - s) sdiv s else 0);
           bytesToPad = (if 131072 > s then (131072 - s) smod s else 0);
           out2 = (if numCopies > 1 then write_copies 1 numCopies u u else u)
       in if bytesToPad > 0 then out2 @ replicate (nat bytesToPad) 0 else out2)"
    unfolding normalize_and_write_def Let_def fileData fileSize ..
  have copies: "1 + (if 131072 > s then (131072 - s) sdiv s else 0) = 131072 div s"
  proof (cases "131072 > s")
    case True
    then have "(131072 - s) sdiv s = (131072 - s) div s"
      using spos by (intro sdiv_nonneg) simp_all
    moreover have "131072 div s = 1 + (131072 - s) div s"
      using spos div_add_self1 [of s "131072 - s"] by simp
    ultimately show ?thesis using True by simp
  next
    case False
    with sle have "s = 131072" by simp
    then show ?thesis by simp
  qed
  have pad: "(if 131072 > s then (131072 - s) smod s else 0) = 131072 mod s"
  proof (cases "131072 > s")
    case True
    then have "(131072 - s) smod s = (131072 - s) mod s"
      using spos by (intro smod_nonneg) simp_all
    moreover have "(131072 - s) mod s = 131072 mod s"
      by simp
    ultimately show ?thesis using True by simp
  next
    case False
    with sle have "s = 131072" by simp
    then show ?thesis by simp
  qed
  have nd: "nat (131072 div s) = 131072 div length u"
    by (simp add: s_def nat_div_distrib)
  have nm: "nat (131072 mod s) = 131072 mod length u"
    by (simp add: s_def nat_mod_distrib)
  have ge1: "1 \<le> 131072 div s"
    using pos_imp_zdiv_pos_iff [of s 131072] spos sle by linarith
  have body: "(if 131072 div s > 1 then write_copies 1 (131072 div s) u u else u)
                = concat (replicate (131072 div length u) u)"
  proof (cases "131072 div s > 1")
    case True
    have "write_copies 1 (131072 div s) u u
            = u @ concat (replicate (nat (131072 div s - 1)) u)"
      using ge1 by (rule write_copies_eq)
    also have "\<dots> = concat (replicate (Suc (nat (131072 div s - 1))) u)"
      by simp
    also have "Suc (nat (131072 div s - 1)) = nat (131072 div s)"
      using ge1 by simp
    finally show ?thesis using True by (simp add: nd)
  next
    case False
    with ge1 have "131072 div s = 1" by simp
    then have "131072 div length u = 1"
      using nd by simp
    with False show ?thesis by simp
  qed
  have padz: "(if 131072 mod s > 0 then xs @ replicate (nat (131072 mod s)) 0 else xs)
                = xs @ replicate (131072 mod length u) (0 :: byte)" for xs
  proof (cases "131072 mod s > 0")
    case True
    then show ?thesis by (simp add: nm)
  next
    case False
    then have "131072 mod s = 0"
      using spos by (metis Euclidean_Rings.pos_mod_sign order_antisym_conv not_le)
    then have "131072 mod length u = 0" using nm by simp
    with False show ?thesis by simp
  qed
  show ?thesis
    unfolding nw Let_def copies pad body padz
    by (simp add: tile_def u_def)
qed

lemma tile_four:
  assumes "length payload = 32768"
  shows "tile 131072 (save_unit payload) = payload @ payload @ payload @ payload"
proof -
  have u: "save_unit payload = payload"
    using assms by (simp add: save_unit_def Let_def)
  have d: "131072 div length payload = 4" "131072 mod length payload = 0"
    using assms by simp_all
  have r: "replicate 4 payload = [payload, payload, payload, payload]"
    by (simp add: numeral_eq_Suc)
  show ?thesis
    unfolding tile_def u d r by simp
qed

text \<open>
  Claim C2. For every non-empty save payload copied with the target size 131072 (the
  \<open>.mpk\<close> and \<open>.pak\<close> case), the destination receives exactly 131072 bytes: the unit
  (the payload cut to 131072 bytes if it is longer, then filled with zero bytes up to
  32768 bytes if it is not longer than that) repeated as many whole times as fit,
  followed by zero bytes up to 131072. A payload of exactly 32768 bytes gives the
  payload four times and no padding. \<open>main\<close> passes this target size for the extensions
  \<open>.mpk\<close> and \<open>.pak\<close>.
\<close>

theorem size_normalisation:
  assumes "fs src = Some payload" and "payload \<noteq> []" and "src \<noteq> dst"
  shows "copyFile fs src dst 131072 = (fs(dst \<mapsto> tile 131072 (save_unit payload)), None)
       \<and> length (tile 131072 (save_unit payload)) = 131072
       \<and> (length payload = 32768 \<longrightarrow>
            tile 131072 (save_unit payload) = payload @ payload @ payload @ payload)
       \<and> transform_save fs ''.mpk'' src dst = copyFile fs src dst 131072
       \<and> transform_save fs ''.pak'' src dst = copyFile fs src dst 131072"
proof -
  have pos: "0 < length (save_unit payload)"
    using length_save_unit(1) [OF assms(2)] by auto
  have "copyFile fs src dst 131072 = (fs(dst \<mapsto> tile 131072 (save_unit payload)), None)"
    using assms by (simp add: copyFile_def normalize_and_write_eq)
  then show ?thesis
    using length_tile [OF pos] tile_four transform_save_kinds(3,4) by blast
qed

theorem size_normalisation_witness:
  "pak_store ''game.mpk'' = Some [0x81, 0x01, 0x02]
   \<and> snd (copyFile pak_store ''game.mpk'' ''out.mpk'' 131072) = None
   \<and> fst (copyFile pak_store ''game.mpk'' ''out.mpk'' 131072) ''out.mpk''
       = Some (tile 131072 (save_unit [0x81, 0x01, 0x02]))
   \<and> length (tile 131072 (save_unit [0x81, 0x01, 0x02])) = 131072
   \<and> length (replicate 32768 (7 :: byte)) = 32768
   \<and> fst (copyFile pak_store ''full.mpk'' ''out.mpk'' 131072) ''out.mpk''
       = Some (replicate 32768 7 @ replicate 32768 7 @ replicate 32768 7 @ replicate 32768 7)"
proof -
  have a: "pak_store ''game.mpk'' = Some [0x81, 0x01, 0x02]"
    and b: "pak_store ''full.mpk'' = Some (replicate 32768 7)"
    by (simp_all add: pak_store_def)
  have ne: "[0x81, 0x01, 0x02 :: byte] \<noteq> []" "replicate 32768 (7 :: byte) \<noteq> []"
    "''game.mpk'' \<noteq> ''out.mpk''" "''full.mpk'' \<noteq> ''out.mpk''"
    by simp_all
  have l: "length (replicate 32768 (7 :: byte)) = 32768" by simp
  from size_normalisation [of pak_store "''game.mpk''" "[0x81, 0x01, 0x02]" "''out.mpk''"]
    size_normalisation [of pak_store "''full.mpk''" "replicate 32768 7" "''out.mpk''"] a b ne l
  show ?thesis by simp
qed

text \<open>
  Claim C8. For a source file of length zero and a target size that is not negative,
  \<open>copyFile\<close> returns the empty-source error exactly when the target size is positive
  (size normalisation is required); with the target size 0 (direct copy, which \<open>main\<close>
  chooses for \<open>.eep\<close>, \<open>.eeprom\<close>, \<open>.flash\<close> and \<open>.ram\<close>) it returns no error and leaves
  a destination file of length zero.
\<close>

theorem empty_source_copy:
  assumes "fs src = Some []" and "0 \<le> targetSize"
  shows "(snd (copyFile fs src dst targetSize) = Some ErrSourceFileEmpty \<longleftrightarrow> 0 < targetSize)
       \<and> (targetSize = 0 \<longrightarrow> copyFile fs src dst targetSize = (fs(dst \<mapsto> []), None))
       \<and> (0 < targetSize \<longrightarrow>
            copyFile fs src dst targetSize = (fs(dst \<mapsto> []), Some ErrSourceFileEmpty))
       \<and> transform_save fs ''.eep'' src dst = copyFile fs src dst 0
       \<and> transform_save fs ''.eeprom'' src dst = copyFile fs src dst 0
       \<and> transform_save fs ''.flash'' src dst = copyFile fs src dst 0
       \<and> transform_save fs ''.ram'' src dst = copyFile fs src dst 0"
proof -
  have inp: "(case (fs(dst \<mapsto> [])) src of None \<Rightarrow> [] | Some bytes \<Rightarrow> bytes) = []"
    using assms(1) by simp
  show ?thesis
    using assms
    by (simp add: transform_save_kinds copyFile_def Let_def inp del: fun_upd_apply)
qed

theorem empty_source_copy_witness:
  "pak_store ''empty.eep'' = Some []
   \<and> copyFile pak_store ''empty.eep'' ''out.eep'' 0 = (pak_store(''out.eep'' \<mapsto> []), None)
   \<and> snd (copyFile pak_store ''empty.eep'' ''out.mpk'' 131072) = Some ErrSourceFileEmpty"
proof -
  have a: "pak_store ''empty.eep'' = Some []"
    by (simp add: pak_store_def)
  from empty_source_copy [of pak_store "''empty.eep''" 0 "''out.eep''"]
    empty_source_copy [of pak_store "''empty.eep''" 131072 "''out.mpk''"] a
  show ?thesis by simp
qed

section \<open>Content hash\<close>

lemma sha256_block_take: "sha256_block hs (a @ b) = sha256_block hs a" if "64 \<le> length a"
  using that by (simp add: sha256_block_def)

lemma sha256_blocks_short: "length p < 64 \<Longrightarrow> sha256_blocks hs p = hs"
  by (subst sha256_blocks.simps) simp

lemma sha256_blocks_append:
  "length a mod 64 = 0 \<Longrightarrow> sha256_blocks hs (a @ b) = sha256_blocks (sha256_blocks hs a) b"
proof (induction hs a rule: sha256_blocks.induct)
  case (1 hs a)
  show ?case
  proof (cases "64 \<le> length a")
    case True
    have m: "length (drop 64 a) mod 64 = 0"
      using "1.prems" True le_mod_geq [of 64 "length a"] by simp
    have "sha256_blocks hs (a @ b) = sha256_blocks (sha256_block hs a) (drop 64 a @ b)"
      using True by (subst sha256_blocks.simps) (simp add: sha256_block_take)
    also have "\<dots> = sha256_blocks (sha256_blocks (sha256_block hs a) (drop 64 a)) b"
      using True m by (intro "1.IH")
    also have "sha256_blocks (sha256_block hs a) (drop 64 a) = sha256_blocks hs a"
      using True by (subst (2) sha256_blocks.simps) simp
    finally show ?thesis .
  next
    case False
    with "1.prems" have "a = []" by (cases a) auto
    then show ?thesis by (simp add: sha256_blocks_short)
  qed
qed

lemma sha256_blocks_tail:
  "length a mod 64 = 0 \<Longrightarrow> length t < 64 \<Longrightarrow> sha256_blocks hs (a @ t) = sha256_blocks hs a"
  by (simp add: sha256_blocks_append sha256_blocks_short)

lemma digest_of_split:
  assumes "length a mod 64 = 0" and "length t < 64"
  shows "digest_of (a @ t) =
           \<lparr>dig_h = sha256_blocks sha256_init a, dig_x = t,
            dig_len = word_of_nat (length a + length t)\<rparr>"
proof -
  have "(length a + length t) mod 64 = length t"
    using assms by (metis add.commute add.right_neutral mod_add_right_eq mod_less)
  then show ?thesis
    using assms by (simp add: digest_of_def sha256_blocks_tail)
qed

lemma mod64_add: "(a :: nat) mod 64 = 0 \<Longrightarrow> b mod 64 = 0 \<Longrightarrow> (a + b) mod 64 = 0"
  by (simp flip: dvd_eq_mod_eq_0)

lemma mod64_whole: "(n - n mod 64) mod 64 = (0 :: nat)"
  by (metis minus_mod_eq_mult_div mod_mult_self1_is_0)

lemma digest_after_blocks:
  assumes "length a mod 64 = 0"
  shows "\<lparr>dig_h = sha256_blocks sha256_init (a @ q),
          dig_x = drop (length q - length q mod 64) q,
          dig_len = word_of_nat (length a + length q)\<rparr> = digest_of (a @ q)"
proof -
  have m: "(length a + length q) mod 64 = length q mod 64"
    using assms by (metis add.commute add.right_neutral mod_add_right_eq)
  have "length a + length q - length q mod 64 = length a + (length q - length q mod 64)"
    by simp
  then show ?thesis
    by (simp add: digest_of_def m)
qed

lemma digest_rest_cases:
  assumes "dig_x d = []"
  shows "digest_rest d q =
           (if 64 \<le> length q
            then d\<lparr>dig_h := sha256_blocks (dig_h d) (take (length q - length q mod 64) q),
                   dig_x := drop (length q - length q mod 64) q\<rparr>
            else d\<lparr>dig_x := q\<rparr>)"
proof -
  have e: "(if p' \<noteq> [] then d'\<lparr>dig_x := p'\<rparr> else d') = d'\<lparr>dig_x := p'\<rparr>"
    if "dig_x d' = []" for d' :: digest and p'
    using that by (cases d') simp
  show ?thesis
  proof (cases "64 \<le> length q")
    case True
    then show ?thesis
      unfolding digest_rest_def Let_def
      by (simp only: if_True) (simp add: e assms)
  next
    case False
    then show ?thesis
      unfolding digest_rest_def Let_def
      by (simp only: if_False) (simp add: e assms)
  qed
qed

lemma digest_rest_eq:
  assumes "length a mod 64 = 0"
  shows "digest_rest \<lparr>dig_h = sha256_blocks sha256_init a, dig_x = [],
                       dig_len = word_of_nat (length a + length q)\<rparr> q
           = digest_of (a @ q)"
proof -
  let ?n = "length q - length q mod 64"
  let ?d = "\<lparr>dig_h = sha256_blocks sha256_init a, dig_x = [],
              dig_len = word_of_nat (length a + length q) :: 64 word\<rparr>"
  have dx: "dig_x ?d = []" by simp
  have "digest_rest ?d q
        = \<lparr>dig_h = sha256_blocks sha256_init (a @ q), dig_x = drop ?n q,
           dig_len = word_of_nat (length a + length q)\<rparr>"
  proof (cases "64 \<le> length q")
    case True
    have l1: "length (a @ take ?n q) mod 64 = 0"
    proof -
      have "length (a @ take ?n q) = length a + ?n" by simp
      then show ?thesis
        using mod64_add [OF assms mod64_whole [of "length q"]] by (simp only:)
    qed
    have l2: "length (drop ?n q) < 64"
      by simp
    have "sha256_blocks sha256_init (a @ q)
            = sha256_blocks sha256_init ((a @ take ?n q) @ drop ?n q)"
      by simp
    also have "\<dots> = sha256_blocks sha256_init (a @ take ?n q)"
      by (rule sha256_blocks_tail [OF l1 l2])
    also have "\<dots> = sha256_blocks (sha256_blocks sha256_init a) (take ?n q)"
      by (rule sha256_blocks_append [OF assms])
    finally have h: "sha256_blocks (sha256_blocks sha256_init a) (take ?n q)
                       = sha256_blocks sha256_init (a @ q)" by (rule sym)
    show ?thesis
      unfolding digest_rest_cases [OF dx] using True by (simp add: h)
  next
    case False
    then have lq: "length q < 64" by simp
    then have n0: "?n = 0" by simp
    have h: "sha256_blocks sha256_init (a @ q) = sha256_blocks sha256_init a"
      by (rule sha256_blocks_tail [OF assms lq])
    show ?thesis
      unfolding digest_rest_cases [OF dx] n0 h using False by simp
  qed
  then show ?thesis
    by (simp only: digest_after_blocks [OF assms])
qed

lemma digest_Write_eq: "digest_Write (digest_of m) p = digest_of (m @ p)"
proof -
  define w where "w = length m - length m mod 64"
  define pre where "pre = take w m"
  define x where "x = drop w m"
  have m: "m = pre @ x" by (simp add: pre_def x_def)
  have lx: "length x = length m mod 64"
    by (simp add: x_def w_def)
  have lx64: "length x < 64" by (simp add: lx)
  have lpre: "length pre mod 64 = 0"
  proof -
    have "length pre = w" by (simp add: pre_def w_def)
    moreover have "w mod 64 = 0"
      unfolding w_def by (metis minus_mod_eq_mult_div mod_mult_self1_is_0)
    ultimately show ?thesis by simp
  qed
  have dm: "digest_of m = \<lparr>dig_h = sha256_blocks sha256_init pre, dig_x = x,
                             dig_len = word_of_nat (length pre + length x)\<rparr>"
    unfolding m by (rule digest_of_split [OF lpre lx64])
  let ?L = "word_of_nat (length pre + length x) + word_of_nat (length p) :: 64 word"
  have L: "?L = word_of_nat (length (m @ p))"
    by (simp add: m)
  show ?thesis
  proof (cases "x = []")
    case True
    then have mp: "m = pre" using m by simp
    have "digest_Write (digest_of m) p
            = digest_rest \<lparr>dig_h = sha256_blocks sha256_init pre, dig_x = [],
                            dig_len = word_of_nat (length pre + length p)\<rparr> p"
      using True by (simp add: dm digest_Write_def digest_fill_def)
    also have "\<dots> = digest_of (pre @ p)"
      by (rule digest_rest_eq [OF lpre])
    finally show ?thesis by (simp add: mp)
  next
    case ne: False
    show ?thesis
    proof (cases "length x + length p < 64")
      case True
      then have mn: "min (64 - length x) (length p) = length p" by simp
      have "digest_Write (digest_of m) p
              = digest_rest \<lparr>dig_h = sha256_blocks sha256_init pre, dig_x = x @ p,
                              dig_len = ?L\<rparr> []"
        using ne True by (simp add: dm digest_Write_def digest_fill_def Let_def mn)
      also have "\<dots> = \<lparr>dig_h = sha256_blocks sha256_init pre, dig_x = x @ p, dig_len = ?L\<rparr>"
        by (simp add: digest_rest_def)
      also have "\<dots> = digest_of (pre @ (x @ p))"
        using digest_of_split [OF lpre, of "x @ p"] True by simp
      finally show ?thesis by (simp add: m)
    next
      case False
      define n where "n = 64 - length x"
      have mn: "min (64 - length x) (length p) = n"
        using False lx64 by (simp add: n_def)
      have lxs: "length (x @ take n p) = 64"
        using False lx64 by (simp add: n_def)
      have la: "length (pre @ x @ take n p) mod 64 = 0"
      proof -
        have "length (pre @ x @ take n p) = length pre + 64"
          using lxs by simp
        then show ?thesis
          using mod64_add [OF lpre, of 64] by simp
      qed
      have hh: "sha256_blocks (sha256_blocks sha256_init pre) (x @ take n p)
                  = sha256_blocks sha256_init (pre @ x @ take n p)"
        using lpre by (simp add: sha256_blocks_append)
      have len: "length (pre @ x @ take n p) + length (drop n p)
                   = length pre + length x + length p"
        using False lx64 by (simp add: n_def)
      have "digest_Write (digest_of m) p
              = digest_rest \<lparr>dig_h = sha256_blocks sha256_init (pre @ x @ take n p), dig_x = [],
                              dig_len = ?L\<rparr> (drop n p)"
        using ne lxs by (simp add: dm digest_Write_def digest_fill_def Let_def mn hh)
      also have "?L = word_of_nat (length (pre @ x @ take n p) + length (drop n p))"
        by (simp only: len) simp
      also have "digest_rest \<lparr>dig_h = sha256_blocks sha256_init (pre @ x @ take n p), dig_x = [],
                     dig_len = word_of_nat (length (pre @ x @ take n p) + length (drop n p))\<rparr>
                   (drop n p)
                 = digest_of ((pre @ x @ take n p) @ drop n p)"
        by (rule digest_rest_eq [OF la])
      finally show ?thesis by (simp add: m)
    qed
  qed
qed

lemma copy_to_hasher_eq:
  assumes "0 < k"
  shows "copy_to_hasher k rest (digest_of m) = digest_of (m @ rest)"
proof (induction rest arbitrary: m rule: length_induct)
  case (1 rest)
  show ?case
  proof (cases "rest = []")
    case True
    then show ?thesis
      using assms by (subst copy_to_hasher.simps) (simp add: File_Read_def)
  next
    case False
    have shorter: "length (drop k rest) < length rest"
      using False assms by simp
    have "copy_to_hasher k rest (digest_of m)
            = copy_to_hasher k (drop (length (take k rest)) rest)
                (digest_Write (digest_of m) (take k rest))"
      using False assms by (subst copy_to_hasher.simps) (simp add: File_Read_def)
    also have "drop (length (take k rest)) rest = drop k rest"
      by (cases "k \<le> length rest") (simp_all add: min_def)
    also have "digest_Write (digest_of m) (take k rest) = digest_of (m @ take k rest)"
      by (rule digest_Write_eq)
    also have "copy_to_hasher k (drop k rest) (digest_of (m @ take k rest))
                 = digest_of ((m @ take k rest) @ drop k rest)"
      using "1.IH" shorter by blast
    finally show ?thesis by simp
  qed
qed

lemma sha256_New_eq: "sha256_New = digest_of []"
  by (simp add: sha256_New_def digest_of_def sha256_blocks_short)

lemma pad_zeros:
  fixes r :: nat
  shows "r < 56 \<Longrightarrow> (119 - r) mod 64 = 55 - r"
    and "56 \<le> r \<Longrightarrow> r < 64 \<Longrightarrow> (119 - r) mod 64 = 119 - r"
proof -
  show "(119 - r) mod 64 = 55 - r" if "r < 56"
  proof -
    have "119 - r = 64 + (55 - r)" using that by linarith
    then have "(119 - r) mod 64 = (64 + (55 - r)) mod 64" by (rule arg_cong)
    also have "\<dots> = (55 - r) mod 64" by (rule mod_add_self1)
    also have "\<dots> = 55 - r" by (rule mod_less) simp
    finally show ?thesis .
  qed
  show "(119 - r) mod 64 = 119 - r" if "56 \<le> r" "r < 64"
    using that by simp
qed

lemma unat_len_mod64: "unat ((word_of_nat n :: 64 word) mod 64) = n mod 64"
proof -
  have "unat ((word_of_nat n :: 64 word) mod 64) = unat (word_of_nat n :: 64 word) mod 64"
    by (simp add: unat_mod)
  also have "unat (word_of_nat n :: 64 word) = n mod 2 ^ 64"
    by (simp add: unat_of_nat)
  also have "n mod 2 ^ 64 mod 64 = n mod 64"
    by (rule mod_mod_cancel) simp
  finally show ?thesis .
qed

lemma pad_count:
  fixes n :: nat
  defines "l \<equiv> word_of_nat n :: 64 word"
  shows "unat (if l mod 64 < 56 then 56 - l mod 64 else 64 + 56 - l mod 64) - 1
           = (119 - n mod 64) mod 64"
proof -
  define r where "r = n mod 64"
  have u: "unat (l mod 64) = r"
    by (simp add: l_def r_def unat_len_mod64)
  have r64: "r < 64" by (simp add: r_def)
  have lt: "l mod 64 < 56 \<longleftrightarrow> r < 56"
    by (simp add: word_less_nat_alt u)
  show ?thesis
  proof (cases "r < 56")
    case True
    then have le: "l mod 64 \<le> 56"
      by (simp add: word_le_nat_alt u)
    have "unat (56 - l mod 64) = 56 - r"
      using le by (simp add: unat_sub u)
    moreover have "(119 - r) mod 64 = 55 - r"
      using True by (rule pad_zeros(1))
    ultimately show ?thesis
      using True lt by (simp add: r_def [symmetric])
  next
    case False
    have le: "l mod 64 \<le> 120"
      using r64 by (simp add: word_le_nat_alt u)
    have "unat (64 + 56 - l mod 64) = 120 - r"
      using le by (simp add: unat_sub u)
    moreover have "(119 - r) mod 64 = 119 - r"
      using False r64 by simp
    ultimately show ?thesis
      using False lt by (simp add: r_def [symmetric])
  qed
qed

lemma length_sha256_pad: "length (sha256_pad msg) mod 64 = 0"
proof -
  define n where "n = length msg"
  define r where "r = n mod 64"
  define z where "z = (119 - r) mod 64"
  have n: "n = 64 * (n div 64) + r" by (simp add: r_def)
  have r64: "r < 64" by (simp add: r_def)
  have len: "length (sha256_pad msg) = n + 9 + z"
    by (simp add: sha256_pad_def BigEndian_PutUint64_def n_def r_def z_def)
  define t where "t = r + 9 + z"
  have "t = 64 \<or> t = 128"
  proof (cases "r < 56")
    case True
    then show ?thesis by (simp add: t_def z_def pad_zeros(1))
  next
    case False
    then show ?thesis using r64 by (simp add: t_def z_def pad_zeros(2))
  qed
  then have "t mod 64 = 0"
    by auto
  then have "(64 * (n div 64) + t) mod 64 = 0"
    by (metis mod_mult_self4)
  moreover have "n + 9 + z = 64 * (n div 64) + t"
    using n by (simp add: t_def)
  ultimately show ?thesis
    by (simp only: len)
qed

lemma digest_checkSum_eq: "digest_checkSum (digest_of msg) = Inr (SHA256 msg)"
proof -
  let ?l = "word_of_nat (length msg) :: 64 word"
  let ?padlen = "(0x80 # replicate ((119 - length msg mod 64) mod 64) 0)
                   @ BigEndian_PutUint64 (word_of_nat (8 * length msg))"
  have bits: "push_bit 3 ?l = word_of_nat (8 * length msg)"
    by (simp add: push_bit_eq_mult)
  have pad: "msg @ ?padlen = sha256_pad msg"
    by (simp add: sha256_pad_def)
  have w: "digest_Write (digest_of msg) ?padlen = digest_of (sha256_pad msg)"
    by (simp only: digest_Write_eq pad)
  have x: "dig_x (digest_of (sha256_pad msg)) = []"
    using length_sha256_pad [of msg] by (simp add: digest_of_def)
  have h: "dig_h (digest_of (sha256_pad msg)) = sha256_blocks sha256_init (sha256_pad msg)"
    by (simp add: digest_of_def)
  have l: "dig_len (digest_of msg) = ?l"
    by (simp add: digest_of_def)
  show ?thesis
    unfolding digest_checkSum_def Let_def l pad_count bits w x h SHA256_def
    by simp
qed

lemma hash_file_eq:
  assumes "0 < k"
  shows "hash_file k content = Inr (Sprintf_X (SHA256 content))"
  using assms copy_to_hasher_eq [OF assms, of content "[]"]
  by (simp add: hash_file_def io_CopyBuffer_def sha256_New_eq digest_Sum_def digest_checkSum_eq)

lemma computeSHA256_eq:
  "fs romFile = Some content \<Longrightarrow> computeSHA256 fs romFile = Inr (Sprintf_X (SHA256 content))"
  by (simp add: computeSHA256_def hash_file_eq)

lemma length_sha256_round: "length (sha256_round s kw) = length s"
  by (induction s kw rule: sha256_round.induct) (simp_all add: Let_def)

lemma length_foldl_round: "length (foldl sha256_round s kws) = length s"
  by (induction kws arbitrary: s) (simp_all add: length_sha256_round)

lemma length_sha256_block: "length (sha256_block hs p) = length hs"
  by (simp add: sha256_block_def Let_def length_foldl_round)

lemma length_sha256_blocks: "length (sha256_blocks hs p) = length hs"
proof (induction hs p rule: sha256_blocks.induct)
  case (1 hs p)
  show ?case
  proof (cases "64 \<le> length p")
    case True
    then show ?thesis
      using "1.IH" by (subst sha256_blocks.simps) (simp add: length_sha256_block)
  next
    case False
    then show ?thesis by (subst sha256_blocks.simps) simp
  qed
qed

lemma length_words_out: "length (concat (map BigEndian_PutUint32 ws)) = 4 * length ws"
  by (induction ws) (simp_all add: BigEndian_PutUint32_def)

lemma length_SHA256: "length (SHA256 msg) = 32"
  by (simp add: SHA256_def length_words_out length_sha256_blocks sha256_init_def)

lemma length_Sprintf_X: "length (Sprintf_X bs) = 2 * length bs"
  by (induction bs) (simp_all add: Sprintf_X_def)

lemma hex_facts: "list_all hex_ok Enum.enum"
  by code_simp

lemma set_Sprintf_X: "set (Sprintf_X bs) \<subseteq> set ''0123456789ABCDEF''"
proof -
  have "hexdigit (drop_bit 4 b) \<in> set ''0123456789ABCDEF''
      \<and> hexdigit (b AND 0x0F) \<in> set ''0123456789ABCDEF''" for b
    using all_bytes [OF hex_facts, of b] by (simp only: hex_ok_def)
  then show ?thesis
    unfolding Sprintf_X_def by (induction bs) auto
qed

lemma SHA256_empty:
  "Sprintf_X (SHA256 []) = ''E3B0C44298FC1C149AFBF4C8996FB92427AE41E4649B934CA495991B7852B855''"
  by code_simp

lemma SHA256_abc:
  "Sprintf_X (SHA256 [0x61, 0x62, 0x63])
     = ''BA7816BF8F01CFEA414140DE5DAE2223B00361A396177A9CB410FF61F20015AD''"
  by code_simp

lemma processRom_hash:
  assumes "fs romFile = Some content" and "processRom fs romFile = Inr (title, hashHex)"
  shows "hashHex = Sprintf_X (SHA256 content)"
  using assms computeSHA256_eq [of fs romFile content]
  by (auto simp: processRom_def split: prod.splits option.splits sum.splits)

lemma main_processRom_hash:
  assumes "fs romFile = Some content" and "main_processRom fs romFile = Inr (title, hashHex)"
  shows "hashHex = Sprintf_X (SHA256 content)"
  using assms hash_file_eq [of "32 * 1024" content]
  by (auto simp: main_processRom_def split: prod.splits option.splits sum.splits if_splits)

text \<open>
  Claim C1. For every cartridge-image file, the hash that \<open>computeSHA256\<close> returns is
  the SHA-256 digest of all the bytes of the file, unmodified (the message padded as the
  standard says and run through the compression function block by block), written as 64
  characters from \<open>0-9\<close> and \<open>A-F\<close> with nothing between them. The streaming hasher gives
  this digest whatever the size of the copy buffer; the hash depends on the bytes of the
  file alone, so hashing the same bytes again gives the same string; a successful
  \<open>processRom\<close>, in either revision, returns this hash; and the file of length zero has
  the digest \<open>E3B0C442 98FC1C14 9AFBF4C8 996FB924 27AE41E4 649B934C A495991B 7852B855\<close>.
\<close>

theorem content_hash:
  assumes "fs romFile = Some content"
  shows "computeSHA256 fs romFile = Inr (Sprintf_X (SHA256 content))
       \<and> length (Sprintf_X (SHA256 content)) = 64
       \<and> set (Sprintf_X (SHA256 content)) \<subseteq> set ''0123456789ABCDEF''
       \<and> (\<forall>k. 0 < k \<longrightarrow> hash_file k content = Inr (Sprintf_X (SHA256 content)))
       \<and> (\<forall>fs' romFile'. fs' romFile' = Some content \<longrightarrow>
             computeSHA256 fs' romFile' = computeSHA256 fs romFile)
       \<and> (\<forall>title hashHex. processRom fs romFile = Inr (title, hashHex) \<longrightarrow>
             hashHex = Sprintf_X (SHA256 content))
       \<and> (\<forall>title hashHex. main_processRom fs romFile = Inr (title, hashHex) \<longrightarrow>
             hashHex = Sprintf_X (SHA256 content))
       \<and> (content = [] \<longrightarrow>
             computeSHA256 fs romFile
               = Inr ''E3B0C44298FC1C149AFBF4C8996FB92427AE41E4649B934CA495991B7852B855'')"
proof -
  have 1: "computeSHA256 fs romFile = Inr (Sprintf_X (SHA256 content))"
    using assms by (rule computeSHA256_eq [of fs romFile content])
  have 2: "length (Sprintf_X (SHA256 content)) = 64"
    by (simp add: length_Sprintf_X length_SHA256)
  have 3: "set (Sprintf_X (SHA256 content)) \<subseteq> set ''0123456789ABCDEF''"
    by (rule set_Sprintf_X)
  have 4: "\<forall>k. 0 < k \<longrightarrow> hash_file k content = Inr (Sprintf_X (SHA256 content))"
    by (simp add: hash_file_eq)
  have 5: "\<forall>fs' romFile'. fs' romFile' = Some content \<longrightarrow>
             computeSHA256 fs' romFile' = computeSHA256 fs romFile"
    by (simp add: 1 computeSHA256_eq)
  have 6: "\<forall>title hashHex. processRom fs romFile = Inr (title, hashHex) \<longrightarrow>
             hashHex = Sprintf_X (SHA256 content)"
    using processRom_hash [of fs romFile content] assms by blast
  have 7: "\<forall>title hashHex. main_processRom fs romFile = Inr (title, hashHex) \<longrightarrow>
             hashHex = Sprintf_X (SHA256 content)"
    using main_processRom_hash [of fs romFile content] assms by blast
  have 8: "content = [] \<longrightarrow>
             computeSHA256 fs romFile
               = Inr ''E3B0C44298FC1C149AFBF4C8996FB92427AE41E4649B934CA495991B7852B855''"
    using 1 SHA256_empty by simp
  from 1 2 3 4 5 6 7 8 show ?thesis by blast
qed

lemma processRom_example:
  "processRom rom_store ''game.z64''
     = Inr (''SUPER GAME'',
            Sprintf_X (SHA256 ([0x80, 0x37, 0x12, 0x40] @ replicate 28 0
              @ go_bytes ''SUPER GAME!!'' @ replicate 8 0x20 @ replicate 12 0
              @ replicate 4096 0xFF)))"
proof -
  let ?rom = "[0x80, 0x37, 0x12, 0x40] @ replicate 28 0 @ go_bytes ''SUPER GAME!!''
                @ replicate 8 0x20 @ replicate 12 (0 :: byte) @ replicate 4096 0xFF"
  let ?hdr = "[0x80, 0x37, 0x12, 0x40] @ replicate 28 0 @ go_bytes ''SUPER GAME!!''
                @ replicate 8 0x20 @ replicate 12 (0 :: byte)"
  have f: "rom_store ''game.z64'' = Some ?rom"
    by (simp add: rom_store_def)
  have lh: "length ?hdr = 64" by (simp add: go_bytes_def)
  have rd: "io_ReadFull ?rom 0x40 = (?hdr, None)"
    by (simp add: io_ReadFull_def go_bytes_def)
  have dt: "detectRomFormat (take 4 ?hdr) = Inr ''z64''"
    by (simp add: detectRomFormat_cases)
  have cv: "convertHeaderEndianness ?hdr ''z64'' = Inr ?hdr"
    by (rule convertHeaderEndianness_z64)
  have fld: "take 20 (drop 0x20 ?hdr) = go_bytes ''SUPER GAME!!'' @ replicate 8 0x20"
    by (simp add: go_bytes_def)
  have tr: "TrimRight_space (go_bytes ''SUPER GAME!!'' @ replicate 8 0x20)
              = go_bytes ''SUPER GAME!!''"
    using TrimRight_space_replicate [of "go_bytes ''SUPER GAME!!''" 8] ex_last by blast
  have tt: "extractCleanTitle ?hdr = Inr ''SUPER GAME''"
    unfolding extractCleanTitle_def Let_def fld tr clean_runes_eq ex_eval
    using lh by simp
  have hs: "computeSHA256 rom_store ''game.z64'' = Inr (Sprintf_X (SHA256 ?rom))"
    using f by (rule computeSHA256_eq [of rom_store "''game.z64''" ?rom])
  show ?thesis
    by (simp only: processRom_def f option.case rd prod.case dt sum.case cv tt hs)
qed

theorem content_hash_witness:
  "rom_store ''empty.z64'' = Some []
   \<and> computeSHA256 rom_store ''empty.z64''
       = Inr ''E3B0C44298FC1C149AFBF4C8996FB92427AE41E4649B934CA495991B7852B855''
   \<and> hash_file 1 [0x61, 0x62, 0x63]
       = Inr ''BA7816BF8F01CFEA414140DE5DAE2223B00361A396177A9CB410FF61F20015AD''
   \<and> (\<exists>title hashHex. processRom rom_store ''game.z64'' = Inr (title, hashHex)
         \<and> length hashHex = 64)"
proof -
  let ?rom = "[0x80, 0x37, 0x12, 0x40] @ replicate 28 0 @ go_bytes ''SUPER GAME!!''
                @ replicate 8 0x20 @ replicate 12 (0 :: byte) @ replicate 4096 0xFF"
  have e: "rom_store ''empty.z64'' = Some []"
    and g: "rom_store ''game.z64'' = Some ?rom"
    by (simp_all add: rom_store_def)
  have a: "(Map.empty(''abc'' \<mapsto> [0x61, 0x62, 0x63 :: byte])) ''abc'' = Some [0x61, 0x62, 0x63]"
    by simp
  from content_hash [of rom_store "''empty.z64''" "[]"] e
  have 1: "computeSHA256 rom_store ''empty.z64''
       = Inr ''E3B0C44298FC1C149AFBF4C8996FB92427AE41E4649B934CA495991B7852B855''"
    by blast
  from content_hash [of "Map.empty(''abc'' \<mapsto> [0x61, 0x62, 0x63])" "''abc''"
      "[0x61, 0x62, 0x63]"] a
  have "hash_file 1 [0x61, 0x62, 0x63] = Inr (Sprintf_X (SHA256 [0x61, 0x62, 0x63]))"
    by simp
  then have 2: "hash_file 1 [0x61, 0x62, 0x63]
       = Inr ''BA7816BF8F01CFEA414140DE5DAE2223B00361A396177A9CB410FF61F20015AD''"
    by (simp only: SHA256_abc)
  from content_hash [of rom_store "''game.z64''" ?rom] g
  have "length (Sprintf_X (SHA256 ?rom)) = 64" by blast
  with processRom_example
  have 3: "\<exists>title hashHex. processRom rom_store ''game.z64'' = Inr (title, hashHex)
         \<and> length hashHex = 64"
    by blast
  from e 1 2 3 show ?thesis by blast
qed

end
